theory Spec2Isabelle
  imports Complex_Main "HOL-Library.Word"
begin

unbundle bit_operations_syntax

section \<open>JavaScript numbers and typed arrays\<close>

text \<open>
  A JavaScript \<open>number\<close> is modelled as an optional real: \<open>None\<close> stands for
  \<open>undefined\<close> and for \<open>NaN\<close> (what \<open>undefined\<close> becomes in arithmetic), \<open>Some x\<close> for the
  number \<open>x\<close>. IEEE rounding of doubles is idealised as exact real arithmetic. A relational
  comparison with \<open>NaN\<close> or \<open>undefined\<close> on either side is false.
\<close>

type_synonym number = "real option"

definition num :: "int \<Rightarrow> number" where
  "num k = Some (of_int k)"

definition lt :: "number \<Rightarrow> number \<Rightarrow> bool" where
  "lt a b = (case a of None \<Rightarrow> False | Some x \<Rightarrow> (case b of None \<Rightarrow> False | Some y \<Rightarrow> x < y))"

definition gt :: "number \<Rightarrow> number \<Rightarrow> bool" where
  "gt a b = (case a of None \<Rightarrow> False | Some x \<Rightarrow> (case b of None \<Rightarrow> False | Some y \<Rightarrow> x > y))"

definition ge :: "number \<Rightarrow> number \<Rightarrow> bool" where
  "ge a b = (case a of None \<Rightarrow> False | Some x \<Rightarrow> (case b of None \<Rightarrow> False | Some y \<Rightarrow> x \<ge> y))"

definition nadd :: "number \<Rightarrow> number \<Rightarrow> number" where
  "nadd a b = (case a of None \<Rightarrow> None | Some x \<Rightarrow> (case b of None \<Rightarrow> None | Some y \<Rightarrow> Some (x + y)))"

definition nsub :: "number \<Rightarrow> number \<Rightarrow> number" where
  "nsub a b = (case a of None \<Rightarrow> None | Some x \<Rightarrow> (case b of None \<Rightarrow> None | Some y \<Rightarrow> Some (x - y)))"

definition nneg :: "number \<Rightarrow> number" where
  "nneg a = map_option uminus a"

definition nabs :: "number \<Rightarrow> number" where
  "nabs a = map_option abs a"

text \<open>Multiplication and division by a literal constant of the source (never zero there).\<close>

definition nmul :: "number \<Rightarrow> real \<Rightarrow> number" where
  "nmul a c = map_option (\<lambda>x. x * c) a"

definition ndiv :: "number \<Rightarrow> real \<Rightarrow> number" where
  "ndiv a c = map_option (\<lambda>x. x / c) a"

text \<open>
  A \<open>Uint16Array\<close> is a list of 16-bit words and a \<open>Uint8Array\<close> (or a \<open>Buffer\<close>) a list of
  bytes. Reading an index outside the array gives \<open>undefined\<close>; a store outside the array is
  dropped; a store converts the number as \<open>ToUint16\<close>/\<open>ToUint8\<close> do: \<open>NaN\<close> becomes 0,
  anything else is truncated towards zero and reduced modulo \<open>2 ^ 16\<close> (or \<open>2 ^ 8\<close>).
\<close>

definition rd :: "'a::len word list \<Rightarrow> int \<Rightarrow> number" where
  "rd a k = (if 0 \<le> k \<and> k < int (length a) then Some (real (unat (a ! nat k))) else None)"

definition toUint :: "number \<Rightarrow> 'a::len word" where
  "toUint v = (case v of None \<Rightarrow> 0 | Some x \<Rightarrow> word_of_int (if 0 \<le> x then \<lfloor>x\<rfloor> else \<lceil>x\<rceil>))"

definition wr :: "'a::len word list \<Rightarrow> int \<Rightarrow> number \<Rightarrow> 'a word list" where
  "wr a k v = (if 0 \<le> k \<and> k < int (length a) then a[nat k := toUint v] else a)"

section \<open>Constants of the message format\<close>

text \<open>
  \<open>LONG_MSG_BITS\<close> and \<open>SHORT_MSG_BITS\<close> are properties of the imported length lookup
  \<open>mode-s-msglen\<close>; the values are the ones the specification gives (112 and 56 bit).
\<close>

definition PREAMBLE_US :: int where
  "PREAMBLE_US = 8"

definition LONG_MSG_BITS :: int where
  "LONG_MSG_BITS = 112"

definition SHORT_MSG_BITS :: int where
  "SHORT_MSG_BITS = 56"

definition FULL_LEN :: int where
  "FULL_LEN = PREAMBLE_US + LONG_MSG_BITS"

section \<open>The helpers of the phase-correction retry\<close>

text \<open>
  \<open>memcpy(dst, dstOffset, src, srcOffset, length)\<close>: the loop variable starts at
  \<open>srcOffset\<close>, runs while it is below \<open>length\<close>, and indexes \<open>src\<close> directly.
\<close>

definition memcpy :: "16 word list \<Rightarrow> int \<Rightarrow> 16 word list \<Rightarrow> int \<Rightarrow> int \<Rightarrow> 16 word list" where
  "memcpy dst dstOffset src srcOffset len =
     fold (\<lambda>i d. wr d (dstOffset + i) (rd src i)) [srcOffset..len - 1] dst"

definition detectOutOfPhase :: "16 word list \<Rightarrow> int \<Rightarrow> int" where
  "detectOutOfPhase mag offset =
     (if gt (rd mag (offset + 3)) (ndiv (rd mag (offset + 2)) 3) then 1
      else if gt (rd mag (offset + 10)) (ndiv (rd mag (offset + 9)) 3) then 1
      else if gt (rd mag (offset + 6)) (ndiv (rd mag (offset + 7)) 3) then - 1
      else if gt (rd mag (offset + - 1)) (ndiv (rd mag (offset + 1)) 3) then - 1
      else 0)"

text \<open>One pass of the loop body of \<open>applyPhaseCorrection\<close>, for the loop variable \<open>j\<close>.\<close>

definition phaseStep :: "int \<Rightarrow> int \<Rightarrow> 16 word list \<Rightarrow> 16 word list" where
  "phaseStep offset j mag =
     (if gt (rd mag (offset + j)) (rd mag (offset + j + 1))
      then wr mag (offset + j + 2) (ndiv (nmul (rd mag (offset + j + 2)) 5) 4)
      else wr mag (offset + j + 2) (ndiv (nmul (rd mag (offset + j + 2)) 4) 5))"

text \<open>
  \<open>for (let j = 16; j < (LONG_MSG_BITS - 1) * 2; j += 2)\<close>: the loop variable takes the
  values \<open>16, 18, \<dots>, 220\<close>.
\<close>

definition evens :: "int \<Rightarrow> int \<Rightarrow> int list" where
  "evens lo hi = filter (\<lambda>i. even (i - lo)) [lo..hi - 1]"

definition applyPhaseCorrection :: "16 word list \<Rightarrow> int \<Rightarrow> 16 word list" where
  "applyPhaseCorrection mag offset =
     fold (phaseStep offset) (evens 16 ((LONG_MSG_BITS - 1) * 2)) mag"

section \<open>Options, messages and the external collaborators\<close>

text \<open>
  The options object: an absent property is \<open>None\<close>. The property \<open>mag\<close> is the field
  \<open>magOpt\<close> here (\<open>None\<close> for \<open>null\<close> and \<open>undefined\<close>).
\<close>

record DemodulatorOptions =
  aggressive :: "bool option"
  checkCrc :: "bool option"
  crcOnly :: "bool option"
  magOpt :: "16 word list option"

definition truthy :: "bool option \<Rightarrow> bool" where
  "truthy b = (b = Some True)"

text \<open>
  The record the decoder returns: the two properties the demodulator reads or writes, and
  the decoded fields, which it never looks at.
\<close>

record 'm Message =
  crcOk :: bool
  phaseCorrected :: bool
  decoded :: 'm

text \<open>
  The two imported modules are parameters of the model: \<open>msgLen\<close> maps the downlink format
  to a bit length, and \<open>parse\<close> is the decoder's method, which gets the decoder object
  (of some type \<open>'d\<close>), the packed bytes and the \<open>crcOnly\<close> option and returns the
  message and the decoder object as it is afterwards.
\<close>

type_synonym ('d, 'm) parser = "'d \<Rightarrow> 8 word list \<Rightarrow> bool option \<Rightarrow> 'm Message \<times> 'd"

section \<open>The message detector\<close>

text \<open>What lives across the passes of the scanning loop of \<open>detectMessage\<close>.\<close>

record ('d, 'm) scan =
  st_bits :: "8 word list"
  st_msg :: "8 word list"
  st_aux :: "16 word list"
  st_mag :: "16 word list"
  st_useCorrection :: bool
  st_decoder :: 'd
  st_out :: "'m Message list"

text \<open>
  The first branch of the loop body (\<open>useCorrection\<close> set): snapshot, then the correction
  under its guard \<open>j && detectOutOfPhase(mag, j)\<close>. Returns \<open>aux\<close> and \<open>mag\<close>.
\<close>

definition retrySetup :: "16 word list \<Rightarrow> 16 word list \<Rightarrow> int \<Rightarrow> 16 word list \<times> 16 word list" where
  "retrySetup aux mag j =
     (let aux' = memcpy aux 0 mag (j + PREAMBLE_US * 2) (int (length aux))
      in (aux', if j \<noteq> 0 \<and> detectOutOfPhase mag j \<noteq> 0 then applyPhaseCorrection mag j else mag))"

text \<open>
  The second branch (\<open>useCorrection\<close> clear): true when one of its three \<open>continue\<close>
  statements is reached.
\<close>

definition preambleRejects :: "16 word list \<Rightarrow> int \<Rightarrow> bool" where
  "preambleRejects mag j =
     (if \<not> (gt (rd mag j) (rd mag (j + 1)) \<and>
             lt (rd mag (j + 1)) (rd mag (j + 2)) \<and>
             gt (rd mag (j + 2)) (rd mag (j + 3)) \<and>
             lt (rd mag (j + 3)) (rd mag j) \<and>
             lt (rd mag (j + 4)) (rd mag j) \<and>
             lt (rd mag (j + 5)) (rd mag j) \<and>
             lt (rd mag (j + 6)) (rd mag j) \<and>
             gt (rd mag (j + 7)) (rd mag (j + 8)) \<and>
             lt (rd mag (j + 8)) (rd mag (j + 9)) \<and>
             gt (rd mag (j + 9)) (rd mag (j + 6)))
      then True
      else
        (let high = ndiv (nadd (nadd (nadd (rd mag j) (rd mag (j + 2))) (rd mag (j + 7))) (rd mag (j + 9))) 6
         in if ge (rd mag (j + 4)) high \<or> ge (rd mag (j + 5)) high then True
            else if ge (rd mag (j + 11)) high \<or> ge (rd mag (j + 12)) high \<or>
                    ge (rd mag (j + 13)) high \<or> ge (rd mag (j + 14)) high then True
            else False))"

text \<open>
  One pass of the bit-slicing loop, for the loop variable \<open>i\<close> (twice the bit index), on
  the pair of the array \<open>bits\<close> and the counter \<open>errors\<close>.
\<close>

definition sliceBit :: "16 word list \<Rightarrow> int \<Rightarrow> int \<Rightarrow> 8 word list \<times> nat \<Rightarrow> 8 word list \<times> nat" where
  "sliceBit mag j i = (\<lambda>(bits, errors).
     (let low = rd mag (j + i + PREAMBLE_US * 2);
          high = rd mag (j + i + PREAMBLE_US * 2 + 1);
          delta0 = nsub low high;
          delta = (if lt delta0 (num 0) then nneg delta0 else delta0)
      in if i > 0 \<and> lt delta (num 256) then (wr bits (i div 2) (rd bits (i div 2 - 1)), errors)
         else if low = high
           then (wr bits (i div 2) (num 2), if i < SHORT_MSG_BITS * 2 then errors + 1 else errors)
         else if gt low high then (wr bits (i div 2) (num 1), errors)
         else (wr bits (i div 2) (num 0), errors)))"

definition sliceBits :: "16 word list \<Rightarrow> int \<Rightarrow> 8 word list \<Rightarrow> 8 word list \<times> nat" where
  "sliceBits mag j bits = fold (sliceBit mag j) (evens 0 (LONG_MSG_BITS * 2)) (bits, 0)"

text \<open>\<open>ToInt32\<close>, as the bitwise operators apply it to their operands.\<close>

definition toInt32 :: "number \<Rightarrow> int" where
  "toInt32 v = (case v of None \<Rightarrow> 0
                | Some x \<Rightarrow> signed_take_bit 31 (if 0 \<le> x then \<lfloor>x\<rfloor> else \<lceil>x\<rceil>))"

definition packByte :: "8 word list \<Rightarrow> int \<Rightarrow> 8 word list \<Rightarrow> 8 word list" where
  "packByte bits i msg =
     wr msg (i div 8)
       (num (push_bit 7 (toInt32 (rd bits i)) OR
             push_bit 6 (toInt32 (rd bits (i + 1))) OR
             push_bit 5 (toInt32 (rd bits (i + 2))) OR
             push_bit 4 (toInt32 (rd bits (i + 3))) OR
             push_bit 3 (toInt32 (rd bits (i + 4))) OR
             push_bit 2 (toInt32 (rd bits (i + 5))) OR
             push_bit 1 (toInt32 (rd bits (i + 6))) OR
             toInt32 (rd bits (i + 7))))"

definition packBits :: "8 word list \<Rightarrow> 8 word list \<Rightarrow> 8 word list" where
  "packBits bits msg = fold (packByte bits) (filter (\<lambda>i. 8 dvd i) [0..LONG_MSG_BITS - 1]) msg"

text \<open>
  The signal-quality check: \<open>msglen\<close> is the byte length \<open>msgLen(msgtype) / 8\<close>; the loop
  runs for \<open>i = 0, 2, \<dots>\<close> below \<open>msglen * 8 * 2\<close> and the sum is divided by \<open>msglen * 4\<close>.
  With \<open>msglen = 0\<close> the loop has not run and the quotient is \<open>0 / 0\<close>, that is \<open>NaN\<close>.
\<close>

definition sumDelta :: "16 word list \<Rightarrow> int \<Rightarrow> real \<Rightarrow> number" where
  "sumDelta mag j msglen =
     fold (\<lambda>i delta. nadd delta (nabs (nsub (rd mag (j + i + PREAMBLE_US * 2))
                                           (rd mag (j + i + PREAMBLE_US * 2 + 1)))))
          (evens 0 \<lceil>msglen * 8 * 2\<rceil>) (num 0)"

definition averageDelta :: "16 word list \<Rightarrow> int \<Rightarrow> real \<Rightarrow> number" where
  "averageDelta mag j msglen =
     (if msglen * 4 = 0 then None else ndiv (sumDelta mag j msglen) (msglen * 4))"


text \<open>
  The end of the loop body, after the signal-quality check: the hand-over to the decoder,
  the callback, and the retry decision. \<open>bitlen\<close> is \<open>msglen * 8\<close>.
\<close>

definition handOver ::
  "('d, 'm) parser \<Rightarrow> DemodulatorOptions \<Rightarrow> int \<Rightarrow> nat \<Rightarrow> nat \<Rightarrow> ('d, 'm) scan \<Rightarrow> int \<times> ('d, 'm) scan" where
  "handOver parse opts j bitlen errors s =
     (let (j1, goodMessage, s1) =
            (if errors = 0 \<or> (truthy (aggressive opts) \<and> errors < 3)
             then (let (mm, dec) = parse (st_decoder s) (st_msg s) (crcOnly opts);
                       j1 = (if crcOk mm then j + (PREAMBLE_US + int bitlen) * 2 else j);
                       mm1 = (if crcOk mm \<and> st_useCorrection s then mm\<lparr>phaseCorrected := True\<rparr> else mm);
                       out = (if crcOk mm \<or> \<not> truthy (checkCrc opts) then st_out s @ [mm1] else st_out s)
                   in (j1, crcOk mm, s\<lparr>st_decoder := dec, st_out := out\<rparr>))
             else (j, False, s))
      in if \<not> goodMessage \<and> \<not> st_useCorrection s1
         then (j1 - 1, s1\<lparr>st_useCorrection := True\<rparr>)
         else (j1, s1\<lparr>st_useCorrection := False\<rparr>))"

text \<open>
  The loop body from the retry branch down to the resolution of the message length: the
  scan state after slicing, restoring and packing, the error counter, and the bit length
  \<open>msgLen(msgtype)\<close>.
\<close>

definition candidate :: "(nat \<Rightarrow> nat) \<Rightarrow> int \<Rightarrow> ('d, 'm) scan \<Rightarrow> ('d, 'm) scan \<times> nat \<times> nat" where
  "candidate msgLen j s =
     (let (aux1, mag1) = (if st_useCorrection s then retrySetup (st_aux s) (st_mag s) j
                          else (st_aux s, st_mag s));
          (bits1, errors) = sliceBits mag1 j (st_bits s);
          mag2 = (if st_useCorrection s
                  then memcpy mag1 (j + PREAMBLE_US * 2) aux1 0 (int (length aux1)) else mag1);
          msg1 = packBits bits1 (st_msg s);
          msgtype = drop_bit 3 (toInt32 (rd msg1 0))
      in (s\<lparr>st_bits := bits1, st_msg := msg1, st_aux := aux1, st_mag := mag2\<rparr>,
          errors, msgLen (nat msgtype)))"

text \<open>
  The whole loop body: the offset \<open>j\<close> as the body leaves it (before the \<open>j++\<close> of the
  loop header) and the new scan state. \<open>msglen\<close> is the byte length \<open>msgLen(msgtype) / 8\<close>.
\<close>

definition detectStep ::
  "(nat \<Rightarrow> nat) \<Rightarrow> ('d, 'm) parser \<Rightarrow> DemodulatorOptions \<Rightarrow> int \<Rightarrow> ('d, 'm) scan \<Rightarrow> int \<times> ('d, 'm) scan" where
  "detectStep msgLen parse opts j s =
     (if \<not> st_useCorrection s \<and> preambleRejects (st_mag s) j then (j, s)
      else
        (let (s1, errors, bitlen) = candidate msgLen j s;
             msglen = real bitlen / 8
         in if lt (averageDelta (st_mag s1) j msglen) (num (10 * 255))
            then (j, s1\<lparr>st_useCorrection := False\<rparr>)
            else handOver parse opts j bitlen errors s1))"

function detectLoop ::
  "(nat \<Rightarrow> nat) \<Rightarrow> ('d, 'm) parser \<Rightarrow> DemodulatorOptions \<Rightarrow> real \<Rightarrow> int \<Rightarrow> ('d, 'm) scan \<Rightarrow> ('d, 'm) scan" where
  "detectLoop msgLen parse opts maglen j s =
     (if real_of_int j < maglen - real_of_int (FULL_LEN * 2)
      then (case detectStep msgLen parse opts j s of (j', s') \<Rightarrow> detectLoop msgLen parse opts maglen (j' + 1) s')
      else s)"
  by pat_completeness auto
termination
proof (relation "measure (\<lambda>(msgLen, parse, opts, maglen, j, s).
          2 * nat (\<lceil>maglen - real_of_int (FULL_LEN * 2)\<rceil> - j) + (if st_useCorrection s then 0 else 1))", goal_cases)
  case 1
  show ?case by simp
next
  case (2 msgLen parse opts maglen j s j' s')
  from 2(1) have lt: "j < \<lceil>maglen - real_of_int (FULL_LEN * 2)\<rceil>" by (simp add: less_ceiling_iff)
  from 2(2) have "(j' = j - 1 \<and> st_useCorrection s' \<and> \<not> st_useCorrection s) \<or> (j \<le> j' \<and> \<not> st_useCorrection s')"
    unfolding detectStep_def handOver_def candidate_def Let_def
    by (auto simp: PREAMBLE_US_def split: if_splits prod.splits)
  with lt show ?case by auto
qed


text \<open>
  The sequence of loop-head visits of the same scan: the offset \<open>j\<close> and the flag
  \<open>useCorrection\<close> each time the loop condition holds and the body is entered.
\<close>

function examined ::
  "(nat \<Rightarrow> nat) \<Rightarrow> ('d, 'm) parser \<Rightarrow> DemodulatorOptions \<Rightarrow> real \<Rightarrow> int \<Rightarrow> ('d, 'm) scan \<Rightarrow> (int \<times> bool) list" where
  "examined msgLen parse opts maglen j s =
     (if real_of_int j < maglen - real_of_int (FULL_LEN * 2)
      then (j, st_useCorrection s) #
           (case detectStep msgLen parse opts j s of (j', s') \<Rightarrow> examined msgLen parse opts maglen (j' + 1) s')
      else [])"
  by pat_completeness auto
termination
proof (relation "measure (\<lambda>(msgLen, parse, opts, maglen, j, s).
          2 * nat (\<lceil>maglen - real_of_int (FULL_LEN * 2)\<rceil> - j) + (if st_useCorrection s then 0 else 1))", goal_cases)
  case 1
  show ?case by simp
next
  case (2 msgLen parse opts maglen j s j' s')
  from 2(1) have lt: "j < \<lceil>maglen - real_of_int (FULL_LEN * 2)\<rceil>" by (simp add: less_ceiling_iff)
  from 2(2) have "(j' = j - 1 \<and> st_useCorrection s' \<and> \<not> st_useCorrection s) \<or> (j \<le> j' \<and> \<not> st_useCorrection s')"
    unfolding detectStep_def handOver_def candidate_def Let_def
    by (auto simp: PREAMBLE_US_def split: if_splits prod.splits)
  with lt show ?case by auto
qed

text \<open>
  \<open>detectMessage(mag, maglen, onMsg)\<close>: the three scratch arrays are allocated (zero-filled)
  and the scan starts at offset 0. The result is the magnitude array and the decoder as the
  call leaves them, and the messages given to \<open>onMsg\<close>, in order.
\<close>

definition initScan :: "'d \<Rightarrow> 16 word list \<Rightarrow> ('d, 'm) scan" where
  "initScan dec mag =
     \<lparr>st_bits = replicate (nat LONG_MSG_BITS) 0,
      st_msg = replicate (nat (LONG_MSG_BITS div 2)) 0,
      st_aux = replicate (nat (LONG_MSG_BITS * 2)) 0,
      st_mag = mag, st_useCorrection = False, st_decoder = dec, st_out = []\<rparr>"

definition detectMessage ::
  "(nat \<Rightarrow> nat) \<Rightarrow> ('d, 'm) parser \<Rightarrow> DemodulatorOptions \<Rightarrow> 'd \<Rightarrow> 16 word list \<Rightarrow> real \<Rightarrow>
     16 word list \<times> 'd \<times> 'm Message list" where
  "detectMessage msgLen parse opts dec mag maglen =
     (let s = detectLoop msgLen parse opts maglen 0 (initScan dec mag)
      in (st_mag s, st_decoder s, st_out s))"

section \<open>The magnitude lookup table and the magnitude computer\<close>

text \<open>
  The table the constructor fills: \<open>new Uint16Array(129 * 129 * 2)\<close>, then for \<open>i\<close> and \<open>q\<close>
  from 0 to 128 the entry \<open>i * 129 + q\<close> is \<open>Math.round(Math.sqrt(i * i + q * q) * 360)\<close>;
  \<open>Math.round\<close> is \<open>\<lfloor>x + 1/2\<rfloor>\<close>, which is \<^const>\<open>round\<close>.
\<close>

definition magnitude :: "int \<Rightarrow> int \<Rightarrow> number" where
  "magnitude i q = num (round (sqrt (real_of_int (i * i + q * q)) * 360))"

definition buildLUT :: "16 word list" where
  "buildLUT =
     fold (\<lambda>i lut. fold (\<lambda>q lut. wr lut (i * 129 + q) (magnitude i q)) [0..128] lut)
          [0..128] (replicate (129 * 129 * 2) 0)"

text \<open>\<open>lut[i * 129 + q]\<close> for numbers \<open>i\<close> and \<open>q\<close>: a property key that is not an index reads \<open>undefined\<close>.\<close>

definition lookup :: "16 word list \<Rightarrow> number \<Rightarrow> number \<Rightarrow> number" where
  "lookup lut i q =
     (case nadd (nmul i 129) q of None \<Rightarrow> None
      | Some x \<Rightarrow> if x = real_of_int \<lfloor>x\<rfloor> then rd lut \<lfloor>x\<rfloor> else None)"

datatype error = RangeError

text \<open>\<open>Buffer.readInt8(offset)\<close> raises a \<open>RangeError\<close> for an offset outside the buffer.\<close>

definition readInt8 :: "8 word list \<Rightarrow> int \<Rightarrow> error + number" where
  "readInt8 data k =
     (if 0 \<le> k \<and> k < int (length data) then Inr (num (sint (data ! nat k))) else Inl RangeError)"

definition absolute :: "number \<Rightarrow> number" where
  "absolute i = (if lt i (num 0) then nneg i else i)"

text \<open>The loop of the signed branch; an exception leaves the loop with \<open>mag\<close> as it is then.\<close>

fun signedLoop :: "16 word list \<Rightarrow> 8 word list \<Rightarrow> int list \<Rightarrow> 16 word list \<Rightarrow> (error \<times> 16 word list) + 16 word list" where
  "signedLoop lut data [] mag = Inr mag"
| "signedLoop lut data (j # js) mag =
     (case readInt8 data j of Inl e \<Rightarrow> Inl (e, mag)
      | Inr i \<Rightarrow>
         (case readInt8 data (j + 1) of Inl e \<Rightarrow> Inl (e, mag)
          | Inr q \<Rightarrow> signedLoop lut data js (wr mag (j div 2) (lookup lut (absolute i) (absolute q)))))"

definition unsignedStep :: "16 word list \<Rightarrow> 8 word list \<Rightarrow> int \<Rightarrow> 16 word list \<Rightarrow> 16 word list" where
  "unsignedStep lut data j mag =
     (let i = nsub (rd data j) (num 127);
          q = nsub (rd data (j + 1)) (num 127)
      in wr mag (j div 2) (lookup lut (absolute i) (absolute q)))"

definition computeMagnitudeVector ::
  "16 word list \<Rightarrow> 8 word list \<Rightarrow> 16 word list \<Rightarrow> nat \<Rightarrow> bool \<Rightarrow> (error \<times> 16 word list) + 16 word list" where
  "computeMagnitudeVector lut data mag sz signedInt =
     (if signedInt then signedLoop lut data (evens 0 (int sz)) mag
      else Inr (fold (unsignedStep lut data) (evens 0 (int sz)) mag))"

section \<open>The demodulator object\<close>

record 'd Demodulator =
  options :: DemodulatorOptions
  decoder :: 'd
  MAG_LUT :: "16 word list"
  mag_priv :: "16 word list option"

text \<open>
  \<open>x || d\<close> for an optional boolean \<open>x\<close>, and the constructor. \<open>newDecoder\<close> stands for
  \<open>new Decoder(this.options)\<close>; the private field \<open>_mag\<close> is \<open>mag_priv\<close>, \<open>undefined\<close> at first.
\<close>

definition orElse :: "bool option \<Rightarrow> bool \<Rightarrow> bool option" where
  "orElse x d = (if truthy x then x else Some d)"

definition constructor :: "(DemodulatorOptions \<Rightarrow> 'd) \<Rightarrow> DemodulatorOptions option \<Rightarrow> 'd Demodulator" where
  "constructor newDecoder opts =
     (let this_options =
            \<lparr>aggressive = Some (Option.bind opts aggressive \<noteq> Some False),
             checkCrc = orElse (Option.bind opts checkCrc) True,
             crcOnly = orElse (Option.bind opts crcOnly) False,
             magOpt = Option.bind opts magOpt\<rparr>
      in \<lparr>options = this_options, decoder = newDecoder this_options,
          MAG_LUT = buildLUT, mag_priv = None\<rparr>)"

text \<open>
  \<open>process(data, size, onMsg)\<close>: \<open>new Uint16Array(size / 2)\<close> has \<open>\<lfloor>size / 2\<rfloor>\<close> elements.
  The result is the object as the call leaves it and the messages given to \<open>onMsg\<close>.
\<close>

definition process ::
  "(nat \<Rightarrow> nat) \<Rightarrow> ('d, 'm) parser \<Rightarrow> 'd Demodulator \<Rightarrow> 8 word list \<Rightarrow> nat \<Rightarrow>
     (error \<times> 'd Demodulator) + ('d Demodulator \<times> 'm Message list)" where
  "process msgLen parse this data sz =
     (let m = (case mag_priv this of None \<Rightarrow> replicate (nat \<lfloor>real sz / 2\<rfloor>) 0 | Some m \<Rightarrow> m)
      in case computeMagnitudeVector (MAG_LUT this) data m sz False of
           Inl (e, m') \<Rightarrow> Inl (e, this\<lparr>mag_priv := Some m'\<rparr>)
         | Inr m' \<Rightarrow>
            (case detectMessage msgLen parse (options this) (decoder this) m' (real sz / 2) of
               (m'', dec, out) \<Rightarrow> Inr (this\<lparr>decoder := dec, mag_priv := Some m''\<rparr>, out)))"

section \<open>Notions used in the statements, and sample inputs\<close>

text \<open>
  Two consecutive visits of the loop head, as pairs of offset and \<open>useCorrection\<close>: either
  the same offset again, now with correction, after a visit without; or a larger offset,
  without correction.
\<close>

definition retryOrAdvance :: "int \<times> bool \<Rightarrow> int \<times> bool \<Rightarrow> bool" where
  "retryOrAdvance v w = ((fst w = fst v \<and> \<not> snd v \<and> snd w) \<or> (fst v < fst w \<and> \<not> snd w))"

declare detectLoop.simps [simp del] examined.simps [simp del]

text \<open>
  Sample collaborators: a decoder that counts its calls and reports every message as
  CRC-invalid, and a length lookup that answers 56 bit for every downlink format.
\<close>

definition rejectingParser :: "(nat, unit) parser" where
  "rejectingParser d m c = (\<lparr>crcOk = False, phaseCorrected = False, decoded = ()\<rparr>, Suc d)"

definition shortOnly :: "nat \<Rightarrow> nat" where
  "shortOnly t = 56"

text \<open>
  The two samples of bit \<open>b\<close> of a candidate at offset \<open>j\<close>, \<open>mag[j + 16 + 2b]\<close> and
  \<open>mag[j + 16 + 2b + 1]\<close>, as integers, for indices inside the array.
\<close>

definition lowAt :: "16 word list \<Rightarrow> int \<Rightarrow> nat \<Rightarrow> int" where
  "lowAt mag j b = int (unat (mag ! nat (j + PREAMBLE_US * 2 + 2 * int b)))"

definition highAt :: "16 word list \<Rightarrow> int \<Rightarrow> nat \<Rightarrow> int" where
  "highAt mag j b = int (unat (mag ! nat (j + PREAMBLE_US * 2 + 2 * int b + 1)))"

text \<open>
  The average as the specification words it: the sum divided by \<open>length * 4\<close> for the bit
  length, and, for its gloss, by a quarter of the bit count.
\<close>

definition specAverageDelta :: "16 word list \<Rightarrow> int \<Rightarrow> nat \<Rightarrow> number" where
  "specAverageDelta mag j L = ndiv (sumDelta mag j (real L / 8)) (real L * 4)"

definition specAverageDeltaQuarter :: "16 word list \<Rightarrow> int \<Rightarrow> nat \<Rightarrow> number" where
  "specAverageDeltaQuarter mag j L = ndiv (sumDelta mag j (real L / 8)) (real L / 4)"

text \<open>
  A sample magnitude buffer of 241 samples: a clean preamble at offset 0 with pulses of
  height \<open>a\<close> at the samples 0, 2, 7 and 9, then 112 bits, each a pulse of height \<open>a\<close>
  followed by 0, and one trailing sample.
\<close>

definition pulseFrame :: "16 word \<Rightarrow> 16 word list" where
  "pulseFrame a = map (\<lambda>k. if k \<in> {0, 2, 7, 9} \<or> (16 \<le> k \<and> k < 240 \<and> even k) then a else 0) [0..<241]"

text \<open>
  The first two cases of the bit decision: bit \<open>b\<close> repeats its predecessor; bit \<open>b\<close> is
  erased.
\<close>

definition inherits :: "16 word list \<Rightarrow> int \<Rightarrow> nat \<Rightarrow> bool" where
  "inherits mag j b = (0 < b \<and> \<bar>lowAt mag j b - highAt mag j b\<bar> < 256)"

definition erased :: "16 word list \<Rightarrow> int \<Rightarrow> nat \<Rightarrow> bool" where
  "erased mag j b = (\<not> inherits mag j b \<and> lowAt mag j b = highAt mag j b)"

text \<open>
  The options of a demodulator built without an options object, and the options object
  \<open>{ checkCrc: false }\<close>.
\<close>

definition defaultOptions :: DemodulatorOptions where
  "defaultOptions = options (constructor (\<lambda>_. ()) None)"

definition uncheckedRequest :: DemodulatorOptions where
  "uncheckedRequest = \<lparr>aggressive = None, checkCrc = Some False, crcOnly = None, magOpt = None\<rparr>"

text \<open>
  The sample frame delayed by one sample: a zero sample, then the frame with pulses of
  height 6000; 242 samples, the preamble at offset 1.
\<close>

definition shiftedFrame :: "16 word list" where
  "shiftedFrame = 0 # pulseFrame 6000"

text \<open>
  A sequence of calls of \<open>process\<close> on one demodulator, each with its data and size: the
  list, call by call, of the messages given to the callback. An exception ends the
  sequence.
\<close>

fun run :: "(nat \<Rightarrow> nat) \<Rightarrow> ('d, 'm) parser \<Rightarrow> 'd Demodulator \<Rightarrow> (8 word list \<times> nat) list \<Rightarrow> 'm Message list list" where
  "run msgLen parse this [] = []"
| "run msgLen parse this ((data, sz) # calls) =
     (case process msgLen parse this data sz of
        Inl e \<Rightarrow> []
      | Inr (this', out) \<Rightarrow> out # run msgLen parse this' calls)"

text \<open>
  A sample decoder constructor that looks at the \<open>checkCrc\<close> option only.
\<close>

definition plainDecoder :: "DemodulatorOptions \<Rightarrow> nat" where
  "plainDecoder r = (if truthy (checkCrc r) then 1 else 0)"

section \<open>Facts about typed arrays and the lookup table\<close>

lemma length_wr: "length (wr a k v) = length a"
  by (simp add: wr_def)

lemma rd_wr: "rd (wr a k v) k' =
   (if k' = k \<and> 0 \<le> k \<and> k < int (length a) then Some (real (unat (toUint v :: 'a::len word))) else rd (a :: 'a word list) k')"
  by (auto simp: rd_def wr_def nth_list_update nat_eq_iff)

lemma length_row: "length (fold (\<lambda>q lut. wr lut (i * 129 + q) (magnitude i q)) qs lut) = length (lut :: 16 word list)"
  by (induction qs arbitrary: lut) (simp_all add: length_wr)

lemma rd_row:
  "rd (fold (\<lambda>q lut. wr lut (i * 129 + q) (magnitude i q)) qs lut) k =
     (if k - i * 129 \<in> set qs \<and> 0 \<le> k \<and> k < int (length lut)
      then Some (real (unat (toUint (magnitude i (k - i * 129)) :: 16 word))) else rd (lut :: 16 word list) k)"
proof (induction qs arbitrary: lut)
  case Nil
  then show ?case by simp
next
  case (Cons q qs)
  show ?case
    by (simp add: Cons.IH length_wr rd_wr) (auto simp: algebra_simps)
qed

lemma div129: "(k - i * 129 \<in> set [0..128]) = (k div 129 = (i::int))"
  by auto

lemma length_rows:
  "length (fold (\<lambda>i lut. fold (\<lambda>q lut. wr lut (i * 129 + q) (magnitude i q)) [0..128] lut) is lut) = length (lut :: 16 word list)"
  by (induction "is" arbitrary: lut) (simp_all add: length_row)

lemma rd_rows:
  "rd (fold (\<lambda>i lut. fold (\<lambda>q lut. wr lut (i * 129 + q) (magnitude i q)) [0..128] lut) is lut) k =
     (if k div 129 \<in> set is \<and> 0 \<le> k \<and> k < int (length lut)
      then Some (real (unat (toUint (magnitude (k div 129) (k mod 129)) :: 16 word))) else rd (lut :: 16 word list) k)"
proof (induction "is" arbitrary: lut)
  case Nil
  then show ?case by simp
next
  case (Cons i "is")
  have m: "k div 129 = i \<Longrightarrow> k - i * 129 = k mod 129"
    by presburger
  show ?case
    by (simp add: Cons.IH length_row rd_row div129 del: set_upto) (auto simp: m)
qed

lemma length_buildLUT: "length buildLUT = 33282"
  by (simp add: buildLUT_def length_rows)

lemma sqrt_top: "round (sqrt 32768 * 360) = 65167"
proof -
  have a: "sqrt 32768 * 360 = sqrt 4246732800"
    using real_sqrt_mult[of 32768 129600] real_sqrt_abs[of 360] by simp
  have "130333 / 2 \<le> sqrt 4246732800"
    by (rule real_le_rsqrt) (simp add: power2_eq_square)
  moreover have "sqrt 4246732800 < 130335 / 2"
    by (rule real_less_lsqrt) (simp_all add: power2_eq_square)
  ultimately show ?thesis
    unfolding a round_def by (intro floor_unique) simp_all
qed

lemma toUint_floor_nat: "(toUint (Some (real n * a / b)) :: 16 word) = word_of_nat (n * a div b)" for a b :: nat
proof -
  have "real n * real a / real b = real (n * a) / real b" by simp
  then have "\<lfloor>real n * real a / real b\<rfloor> = int (n * a div b)"
    by (simp only: floor_divide_of_nat_eq)
  then show ?thesis by (simp add: toUint_def)
qed

lemma rd_Some_less:
  assumes "rd (a :: 16 word list) k = Some (real m)"
  shows "m < 65536 \<and> 0 \<le> k \<and> k < int (length a)"
proof -
  have r: "0 \<le> k \<and> k < int (length a)"
    using assms by (cases "0 \<le> k \<and> k < int (length a)") (simp_all add: rd_def)
  with assms have "Some (real (unat (a ! nat k))) = Some (real m)"
    unfolding rd_def by (simp only: if_True simp_thms)
  then have "real (unat (a ! nat k)) = real m" by (simp only: option.inject)
  then have "unat (a ! nat k) = m" by (simp only: of_nat_eq_iff)
  moreover have "unat (a ! nat k) < 2 ^ 16"
    using unsigned_less[of "a ! nat k", where 'a = nat] by simp
  ultimately show ?thesis using r by simp
qed

lemma phaseStep_one:
  assumes "gt (rd mag (offset + j)) (rd mag (offset + j + 1))" and "rd mag (offset + j + 2) = Some (real m)"
  shows "rd (phaseStep offset j mag) (offset + j + 2) = Some (real (5 * m div 4 mod 65536))"
proof -
  from assms(2) have r: "0 \<le> offset + j + 2" "offset + j + 2 < int (length mag)"
    using rd_Some_less by blast+
  have "ndiv (nmul (Some (real m)) 5) 4 = Some (real m * real (5::nat) / real (4::nat))"
    by (simp add: ndiv_def nmul_def)
  then have "(toUint (ndiv (nmul (Some (real m)) 5) 4) :: 16 word) = word_of_nat (m * 5 div 4)"
    by (simp only: toUint_floor_nat)
  then show ?thesis using assms r
    by (simp add: phaseStep_def rd_wr unat_of_nat mult.commute)
qed

lemma magnitude_mono:
  assumes "0 \<le> i" "i \<le> i'" "0 \<le> q" "q \<le> q'"
  shows "round (sqrt (real_of_int (i * i + q * q)) * 360) \<le> round (sqrt (real_of_int (i' * i' + q' * q')) * 360)"
proof -
  have "i * i \<le> i' * i'" "q * q \<le> q' * q'" using assms by (simp_all add: mult_mono)
  then have "real_of_int (i * i + q * q) \<le> real_of_int (i' * i' + q' * q')" by linarith
  then show ?thesis by (intro round_mono mult_right_mono) simp_all
qed

lemma magnitude_range:
  assumes "0 \<le> i" "i \<le> 128" "0 \<le> q" "q \<le> 128"
  shows "0 \<le> round (sqrt (real_of_int (i * i + q * q)) * 360)"
    and "round (sqrt (real_of_int (i * i + q * q)) * 360) \<le> 65167"
  using magnitude_mono[of 0 i 0 q] magnitude_mono[of i 128 q 128] assms sqrt_top by simp_all

lemma toUint_num: "0 \<le> k \<Longrightarrow> k < 65536 \<Longrightarrow> real (unat (toUint (num k) :: 16 word)) = real_of_int k"
  by (simp add: toUint_def num_def unat_eq_nat_uint uint_word_of_int take_bit_eq_mod)

lemma rd_buildLUT:
  assumes "0 \<le> i" "i \<le> 128" "0 \<le> q" "q \<le> 128"
  shows "rd buildLUT (i * 129 + q) = magnitude i q"
proof -
  have d: "(i * 129 + q) div 129 = i" "(i * 129 + q) mod 129 = q" using assms by auto
  have "real (unat (toUint (magnitude i q) :: 16 word)) = real_of_int (round (sqrt (real_of_int (i * i + q * q)) * 360))"
    unfolding magnitude_def using magnitude_range[OF assms] by (intro toUint_num) simp_all
  then show ?thesis using assms
    by (simp add: buildLUT_def rd_rows d) (simp add: magnitude_def num_def)
qed

lemma rd_buildLUT_rest:
  assumes "129 * 129 \<le> k" "k < 129 * 129 * 2"
  shows "rd buildLUT k = Some 0"
proof -
  have "\<not> k div 129 \<le> 128" using assms by presburger
  then show ?thesis using assms
    by (simp add: buildLUT_def rd_rows) (simp add: rd_def)
qed

lemma length_fold_wr: "length (fold (\<lambda>i d. wr d (c + i) (f i)) is d) = length d"
  by (induction "is" arbitrary: d) (simp_all add: length_wr)

lemma rd_fold_wr:
  "rd (fold (\<lambda>i d. wr d (c + i) (f i)) is d) k =
     (if k - c \<in> set is \<and> 0 \<le> k \<and> k < int (length d)
      then Some (real (unat (toUint (f (k - c)) :: 'a::len word))) else rd (d :: 'a word list) k)"
proof (induction "is" arbitrary: d)
  case Nil
  then show ?case by simp
next
  case (Cons i "is")
  show ?case
    by (simp add: Cons.IH length_wr rd_wr) (auto simp: algebra_simps)
qed

lemma floor_unsigned: "\<lfloor>(unsigned (w :: 'a::len word) :: real)\<rfloor> = uint w"
proof -
  have "\<lfloor>real_of_int (uint w)\<rfloor> = uint w" by (rule floor_of_int)
  then show ?thesis by (simp only: of_int_uint)
qed

lemma unsigned_nonneg: "(0::real) \<le> unsigned (w :: 'a::len word)"
  using of_nat_0_le_iff[of "unat w", where 'a = real] by (simp only: of_nat_unat)

lemma toUint_unsigned: "toUint (Some (unsigned (w :: 'a::len word))) = w"
  by (simp add: toUint_def unsigned_nonneg floor_unsigned)

lemma toUint_rd: "real (unat (toUint (rd (a :: 'a::len word list) i) :: 'a word)) = (case rd a i of None \<Rightarrow> 0 | Some x \<Rightarrow> x)"
proof (cases "0 \<le> i \<and> i < int (length a)")
  case True
  then show ?thesis by (simp add: rd_def toUint_unsigned)
next
  case False
  then have "rd a i = None" by (auto simp: rd_def)
  then show ?thesis by (simp add: toUint_def)
qed

lemma length_memcpy: "length (memcpy dst dstOffset src srcOffset len) = length dst"
  by (simp add: memcpy_def length_fold_wr)

lemma rd_memcpy:
  "rd (memcpy dst dstOffset src srcOffset len) k =
     (if srcOffset \<le> k - dstOffset \<and> k - dstOffset < len \<and> 0 \<le> k \<and> k < int (length dst)
      then Some (case rd src (k - dstOffset) of None \<Rightarrow> 0 | Some x \<Rightarrow> x) else rd dst k)"
  using toUint_rd[of src "k - dstOffset"]
  by (simp add: memcpy_def rd_fold_wr)

lemma rd_ext:
  assumes "\<And>k. rd a k = rd b k"
  shows "a = (b :: 'a::len word list)"
proof (rule nth_equalityI)
  show l: "length a = length b"
  proof (rule ccontr)
    assume n: "length a \<noteq> length b"
    then consider "length a < length b" | "length b < length a" by linarith
    then show False
    proof cases
      case 1
      with assms[of "int (length a)"] show False by (simp add: rd_def)
    next
      case 2
      with assms[of "int (length b)"] show False by (simp add: rd_def)
    qed
  qed
  fix i assume "i < length a"
  with l assms[of "int i"] have "(unsigned (a ! i) :: real) = unsigned (b ! i)" by (simp add: rd_def)
  then show "a ! i = b ! i" by (rule unsigned_word_eqI)
qed

lemma length_phaseStep: "length (phaseStep offset j mag) = length mag"
  by (simp add: phaseStep_def length_wr)

lemma rd_phaseStep_other: "k \<noteq> offset + j + 2 \<Longrightarrow> rd (phaseStep offset j mag) k = rd mag k"
  by (simp add: phaseStep_def rd_wr)

lemma length_phaseSteps: "length (fold (phaseStep offset) js mag) = length mag"
  by (induction js arbitrary: mag) (simp_all add: length_phaseStep)

lemma rd_phaseSteps_other:
  "\<forall>j\<in>set js. k \<noteq> offset + j + 2 \<Longrightarrow> rd (fold (phaseStep offset) js mag) k = rd mag k"
  by (induction js arbitrary: mag) (simp_all add: rd_phaseStep_other)

lemma set_evens: "set (evens lo hi) = {i. lo \<le> i \<and> i < hi \<and> even (i - lo)}"
  by (auto simp: evens_def)

lemma length_applyPhaseCorrection: "length (applyPhaseCorrection mag offset) = length mag"
  by (simp add: applyPhaseCorrection_def length_phaseSteps)

lemma rd_applyPhaseCorrection_other:
  "k < offset + 18 \<or> offset + 222 < k \<Longrightarrow> rd (applyPhaseCorrection mag offset) k = rd mag k"
  unfolding applyPhaseCorrection_def
  by (rule rd_phaseSteps_other) (auto simp: set_evens LONG_MSG_BITS_def)

section \<open>The magnitude lookup table\<close>

text \<open>
  Claim C3, as the code has it. The table the constructor builds has \<open>129 * 129 * 2\<close>
  entries (not \<open>129 * 129\<close>). For all \<open>i\<close> and \<open>q\<close> from 0 to 128 the entry at
  \<open>i * 129 + q\<close> is \<open>round (sqrt (i\<^sup>2 + q\<^sup>2) * K)\<close> with the scale constant \<open>K = 360\<close>;
  the entries do not decrease in \<open>i\<close> with \<open>q\<close> fixed, nor in \<open>q\<close> with \<open>i\<close> fixed; the
  upper half of the array, from index \<open>129 * 129\<close> on, is never written and stays 0.
\<close>

theorem lut_contents:
  "length (MAG_LUT (constructor newDecoder opts)) = 129 * 129 * 2 \<and>
   (\<forall>i q. 0 \<le> i \<and> i \<le> 128 \<and> 0 \<le> q \<and> q \<le> 128 \<longrightarrow>
      rd (MAG_LUT (constructor newDecoder opts)) (i * 129 + q) =
        Some (real_of_int (round (sqrt (real_of_int (i * i + q * q)) * 360)))) \<and>
   (\<forall>i i' q. 0 \<le> i \<and> i \<le> i' \<and> i' \<le> 128 \<and> 0 \<le> q \<and> q \<le> 128 \<longrightarrow>
      ge (rd (MAG_LUT (constructor newDecoder opts)) (i' * 129 + q))
         (rd (MAG_LUT (constructor newDecoder opts)) (i * 129 + q))) \<and>
   (\<forall>i q q'. 0 \<le> i \<and> i \<le> 128 \<and> 0 \<le> q \<and> q \<le> q' \<and> q' \<le> 128 \<longrightarrow>
      ge (rd (MAG_LUT (constructor newDecoder opts)) (i * 129 + q'))
         (rd (MAG_LUT (constructor newDecoder opts)) (i * 129 + q))) \<and>
   (\<forall>k. 129 * 129 \<le> k \<and> k < 129 * 129 * 2 \<longrightarrow>
      rd (MAG_LUT (constructor newDecoder opts)) k = Some 0)"
proof -
  have lut: "MAG_LUT (constructor newDecoder opts) = buildLUT"
    by (simp add: constructor_def Let_def)
  have a: "length buildLUT = 129 * 129 * 2" by (simp add: length_buildLUT)
  have b: "rd buildLUT (i * 129 + q) = Some (real_of_int (round (sqrt (real_of_int (i * i + q * q)) * 360)))"
    if "0 \<le> i \<and> i \<le> 128 \<and> 0 \<le> q \<and> q \<le> 128" for i q
    using that rd_buildLUT[of i q] by (simp add: magnitude_def num_def)
  have c: "ge (rd buildLUT (i' * 129 + q')) (rd buildLUT (i * 129 + q))"
    if "0 \<le> i" "i \<le> i'" "i' \<le> 128" "0 \<le> q" "q \<le> q'" "q' \<le> 128" for i i' q q'
  proof -
    have "rd buildLUT (i * 129 + q) = Some (real_of_int (round (sqrt (real_of_int (i * i + q * q)) * 360)))"
      using that by (intro b) simp
    moreover have "rd buildLUT (i' * 129 + q') = Some (real_of_int (round (sqrt (real_of_int (i' * i' + q' * q')) * 360)))"
      using that by (intro b) simp
    ultimately show ?thesis
      using magnitude_mono[of i i' q q'] that by (simp add: ge_def)
  qed
  have d: "rd buildLUT k = Some 0" if "129 * 129 \<le> k \<and> k < 129 * 129 * 2" for k
    using that by (intro rd_buildLUT_rest) simp_all
  show ?thesis
    unfolding lut using a b c d by (intro conjI allI impI) simp_all
qed

text \<open>
  The size the claim C3 states, \<open>129 * 129\<close>, is not the length of the table of a
  demodulator built with no options.
\<close>

theorem lut_size_counterexample:
  "length (MAG_LUT (constructor (\<lambda>_. ()) None)) \<noteq> 129 * 129"
  by (simp add: constructor_def Let_def length_buildLUT)

text \<open>
  The theorem at the entries \<open>(0, 0)\<close>, \<open>(128, 0)\<close> and \<open>(0, 128)\<close> and at index 20000.
\<close>

theorem lut_contents_witness:
  "rd (MAG_LUT (constructor (\<lambda>_. ()) None)) (0 * 129 + 0) = Some 0 \<and>
   ge (rd (MAG_LUT (constructor (\<lambda>_. ()) None)) (128 * 129 + 0))
      (rd (MAG_LUT (constructor (\<lambda>_. ()) None)) (0 * 129 + 0)) \<and>
   ge (rd (MAG_LUT (constructor (\<lambda>_. ()) None)) (0 * 129 + 128))
      (rd (MAG_LUT (constructor (\<lambda>_. ()) None)) (0 * 129 + 0)) \<and>
   rd (MAG_LUT (constructor (\<lambda>_. ()) None)) 20000 = Some 0"
proof -
  note t = lut_contents[of "\<lambda>_. ()" None]
  note t1 = t[THEN conjunct2, THEN conjunct1, rule_format, of 0 0]
  note t2 = t[THEN conjunct2, THEN conjunct2, THEN conjunct1, rule_format, of 0 128 0]
  note t3 = t[THEN conjunct2, THEN conjunct2, THEN conjunct2, THEN conjunct1, rule_format, of 0 0 128]
  note t4 = t[THEN conjunct2, THEN conjunct2, THEN conjunct2, THEN conjunct2, rule_format, of 20000]
  have "rd (MAG_LUT (constructor (\<lambda>_. ()) None)) (0 * 129 + 0) = Some 0"
    using t1 by simp
  moreover have "ge (rd (MAG_LUT (constructor (\<lambda>_. ()) None)) (128 * 129 + 0))
      (rd (MAG_LUT (constructor (\<lambda>_. ()) None)) (0 * 129 + 0))"
    by (rule t2) simp
  moreover have "ge (rd (MAG_LUT (constructor (\<lambda>_. ()) None)) (0 * 129 + 128))
      (rd (MAG_LUT (constructor (\<lambda>_. ()) None)) (0 * 129 + 0))"
    by (rule t3) simp
  moreover have "rd (MAG_LUT (constructor (\<lambda>_. ()) None)) 20000 = Some 0"
    by (rule t4) simp
  ultimately show ?thesis by (intro conjI)
qed

section \<open>Progress of the scan\<close>

lemma detectStep_progress:
  assumes "detectStep msgLen parse opts j s = (j', s')"
  shows "(j' = j - 1 \<and> st_useCorrection s' \<and> \<not> st_useCorrection s) \<or> (j \<le> j' \<and> \<not> st_useCorrection s')"
  using assms unfolding detectStep_def handOver_def candidate_def Let_def
  by (auto simp: PREAMBLE_US_def split: if_splits prod.splits)

lemma examined_chain:
  "successively retryOrAdvance (examined msgLen parse opts maglen j s) \<and>
   (examined msgLen parse opts maglen j s \<noteq> [] \<longrightarrow>
      hd (examined msgLen parse opts maglen j s) = (j, st_useCorrection s)) \<and>
   length (examined msgLen parse opts maglen j s)
     \<le> 2 * nat (\<lceil>maglen - real_of_int (FULL_LEN * 2)\<rceil> - j) - (if st_useCorrection s then 1 else 0)"
proof (induction msgLen parse opts maglen j s rule: examined.induct)
  case (1 msgLen parse opts maglen j s)
  let ?C = "\<lceil>maglen - real_of_int (FULL_LEN * 2)\<rceil>"
  show ?case
  proof (cases "real_of_int j < maglen - real_of_int (FULL_LEN * 2)")
    case False
    then show ?thesis by (subst (1 2 3 4) examined.simps) simp
  next
    case True
    obtain j' s' where st: "detectStep msgLen parse opts j s = (j', s')"
      by (cases "detectStep msgLen parse opts j s")
    let ?t = "examined msgLen parse opts maglen (j' + 1) s'"
    have ex: "examined msgLen parse opts maglen j s = (j, st_useCorrection s) # ?t"
      using True st by (subst examined.simps) simp
    from "1.IH"[OF True st[symmetric]]
    have ih: "successively retryOrAdvance ?t"
      "?t \<noteq> [] \<longrightarrow> hd ?t = (j' + 1, st_useCorrection s')"
      "length ?t \<le> 2 * nat (?C - (j' + 1)) - (if st_useCorrection s' then 1 else 0)"
      by simp_all
    have lt: "j < ?C" using True by (simp add: less_ceiling_iff)
    note pr = detectStep_progress[OF st]
    have a: "successively retryOrAdvance ((j, st_useCorrection s) # ?t)"
    proof (cases ?t)
      case Nil
      then show ?thesis by simp
    next
      case (Cons v vs)
      with ih(2) have v: "v = (j' + 1, st_useCorrection s')" by simp
      have "retryOrAdvance (j, st_useCorrection s) v"
        unfolding v retryOrAdvance_def using pr by auto
      with ih(1) Cons show ?thesis by simp
    qed
    have b: "length ((j, st_useCorrection s) # ?t) \<le> 2 * nat (?C - j) - (if st_useCorrection s then 1 else 0)"
      using ih(3) pr lt by (auto split: if_splits)
    show ?thesis unfolding ex using a b by simp
  qed
qed

lemma chain_later:
  "successively retryOrAdvance (v # vs) \<Longrightarrow> w \<in> set vs \<Longrightarrow>
     fst v \<le> fst w \<and> (snd v \<longrightarrow> fst v < fst w) \<and> (\<not> snd w \<longrightarrow> fst v < fst w)"
proof (induction vs arbitrary: v)
  case Nil
  then show ?case by simp
next
  case (Cons u us)
  from Cons.prems(1) have r: "retryOrAdvance v u" and s: "successively retryOrAdvance (u # us)"
    by simp_all
  show ?case
  proof (cases "w = u")
    case True
    with r show ?thesis by (auto simp: retryOrAdvance_def)
  next
    case False
    with Cons.prems(2) have "w \<in> set us" by simp
    from Cons.IH[OF s this] r show ?thesis by (auto simp: retryOrAdvance_def)
  qed
qed

lemma chain_sorted:
  "successively retryOrAdvance vs \<Longrightarrow>
     sorted_wrt (<) (map fst (filter snd vs)) \<and> sorted_wrt (<) (map fst (filter (\<lambda>v. \<not> snd v) vs))"
proof (induction vs)
  case Nil
  then show ?case by simp
next
  case (Cons v vs)
  from Cons.prems have s: "successively retryOrAdvance vs"
    by (cases vs) simp_all
  from Cons.IH[OF s] chain_later[OF Cons.prems] show ?case by auto
qed

text \<open>
  Claim C7. Over a full scan of any magnitude buffer, with any decoder and length lookup,
  two consecutive visits of the loop head either stay at the same offset, the second one
  being the single retry with correction of a visit without, or move to a strictly larger
  offset; the offsets visited with correction strictly increase, so no offset is examined
  with correction twice, and so do the offsets visited without. The scan terminates:
  \<open>detectLoop\<close> and \<open>examined\<close> are total, and there are at most two visits for each offset
  below \<open>maglen - 240\<close>.
\<close>

theorem scan_progress:
  "successively retryOrAdvance (examined msgLen parse opts maglen 0 (initScan dec mag)) \<and>
   sorted_wrt (<) (map fst (filter snd (examined msgLen parse opts maglen 0 (initScan dec mag)))) \<and>
   sorted_wrt (<) (map fst (filter (\<lambda>v. \<not> snd v) (examined msgLen parse opts maglen 0 (initScan dec mag)))) \<and>
   length (examined msgLen parse opts maglen 0 (initScan dec mag))
     \<le> 2 * nat \<lceil>maglen - real_of_int (FULL_LEN * 2)\<rceil>"
proof -
  let ?t = "examined msgLen parse opts maglen 0 (initScan dec mag)"
  note c = examined_chain[of msgLen parse opts maglen 0 "initScan dec mag"]
  from c have s: "successively retryOrAdvance ?t" by blast
  note l0 = c[THEN conjunct2, THEN conjunct2]
  have l: "length ?t \<le> 2 * nat \<lceil>maglen - real_of_int (FULL_LEN * 2)\<rceil>"
    using l0 by (simp add: initScan_def)
  from chain_sorted[OF s] have "sorted_wrt (<) (map fst (filter snd ?t))"
    and "sorted_wrt (<) (map fst (filter (\<lambda>v. \<not> snd v) ?t))" by blast+
  with s l show ?thesis by (intro conjI)
qed

section \<open>The signal-quality check\<close>

lemma evens_map: "evens lo (lo + 2 * int n) = map (\<lambda>b. lo + 2 * int b) [0..<n]"
proof (induction n)
  case 0
  then show ?case by (simp add: evens_def)
next
  case (Suc n)
  have "[lo..lo + 2 * int (Suc n) - 1] = [lo..lo + 2 * int n - 1] @ [lo + 2 * int n, lo + 2 * int n + 1]"
    using upto_rec2[of lo "lo + 2 * int n + 1"] upto_rec2[of lo "lo + 2 * int n"]
    by (simp add: algebra_simps)
  then show ?case using Suc by (simp add: evens_def)
qed

lemma evens0_map: "evens 0 (2 * int n) = map (\<lambda>b. 2 * int b) [0..<n]"
  using evens_map[of 0 n] by simp

lemma rd_inrange: "0 \<le> k \<Longrightarrow> k < int (length a) \<Longrightarrow> rd a k = Some (real (unat (a ! nat k)))"
  by (simp add: rd_def)

lemma sumDelta_prefix:
  assumes "0 \<le> j" "j + PREAMBLE_US * 2 + 2 * int n \<le> int (length mag)"
  shows "fold (\<lambda>i delta. nadd delta (nabs (nsub (rd mag (j + i + PREAMBLE_US * 2))
                                           (rd mag (j + i + PREAMBLE_US * 2 + 1)))))
              (map (\<lambda>b. 2 * int b) [0..<n]) (num 0)
         = Some (real_of_int (\<Sum>b<n. \<bar>lowAt mag j b - highAt mag j b\<bar>))"
  using assms
proof (induction n)
  case 0
  then show ?case by (simp add: num_def)
next
  case (Suc n)
  have r1: "rd mag (j + 2 * int n + PREAMBLE_US * 2) = Some (real_of_int (lowAt mag j n))"
    using Suc.prems by (simp add: rd_def lowAt_def PREAMBLE_US_def algebra_simps)
  have r2: "rd mag (j + 2 * int n + PREAMBLE_US * 2 + 1) = Some (real_of_int (highAt mag j n))"
    using Suc.prems by (simp add: rd_def highAt_def PREAMBLE_US_def algebra_simps)
  from Suc show ?case
    by (simp add: r1 r2 nadd_def nabs_def nsub_def)
qed

lemma averageDelta_eq:
  assumes "0 < L" "0 \<le> j" "j + PREAMBLE_US * 2 + 2 * int L \<le> int (length mag)"
  shows "averageDelta mag j (real L / 8)
         = Some (real_of_int (\<Sum>b<L. \<bar>lowAt mag j b - highAt mag j b\<bar>) / (real L / 2))"
proof -
  have c: "\<lceil>real L / 8 * 8 * 2\<rceil> = 2 * int L"
  proof -
    have "real L / 8 * 8 * 2 = real_of_int (2 * int L)" by simp
    then show ?thesis by (simp only: ceiling_of_int)
  qed
  have "sumDelta mag j (real L / 8) = Some (real_of_int (\<Sum>b<L. \<bar>lowAt mag j b - highAt mag j b\<bar>))"
    unfolding sumDelta_def c evens0_map by (rule sumDelta_prefix[OF assms(2,3)])
  then show ?thesis using assms(1) by (simp add: averageDelta_def ndiv_def)
qed

lemma averageDelta_lt:
  assumes "0 < L" "0 \<le> j" "j + PREAMBLE_US * 2 + 2 * int L \<le> int (length mag)"
  shows "lt (averageDelta mag j (real L / 8)) (num (10 * 255))
         \<longleftrightarrow> 2 * (\<Sum>b<L. \<bar>lowAt mag j b - highAt mag j b\<bar>) < 2550 * int L"
proof -
  let ?S = "\<Sum>b<L. \<bar>lowAt mag j b - highAt mag j b\<bar>"
  have "real_of_int ?S / (real L / 2) < 2550 \<longleftrightarrow> real_of_int ?S * 2 < 2550 * real L"
    using assms(1) by (simp add: field_simps)
  also have "\<dots> \<longleftrightarrow> real_of_int (2 * ?S) < real_of_int (2550 * int L)" by (simp add: mult.commute)
  also have "\<dots> \<longleftrightarrow> 2 * ?S < 2550 * int L" by (simp only: of_int_less_iff)
  finally show ?thesis
    by (simp add: averageDelta_eq[OF assms] lt_def num_def)
qed

lemma candidate_keeps:
  "st_decoder (fst (candidate msgLen j s)) = st_decoder s"
  "st_out (fst (candidate msgLen j s)) = st_out s"
  "st_useCorrection (fst (candidate msgLen j s)) = st_useCorrection s"
  by (simp_all add: candidate_def Let_def split: prod.splits)

lemma candidate_plain:
  "\<not> st_useCorrection s \<Longrightarrow> st_mag (fst (candidate msgLen j s)) = st_mag s"
  "\<not> st_useCorrection s \<Longrightarrow> st_aux (fst (candidate msgLen j s)) = st_aux s"
  by (simp_all add: candidate_def Let_def split: prod.splits)

lemma candidate_retry:
  "st_useCorrection s \<Longrightarrow> st_aux (fst (candidate msgLen j s)) = fst (retrySetup (st_aux s) (st_mag s) j)"
  "st_useCorrection s \<Longrightarrow> st_mag (fst (candidate msgLen j s)) =
     memcpy (snd (retrySetup (st_aux s) (st_mag s) j)) (j + PREAMBLE_US * 2)
            (fst (retrySetup (st_aux s) (st_mag s) j)) 0 (int (length (fst (retrySetup (st_aux s) (st_mag s) j))))"
  by (simp_all add: candidate_def Let_def split: prod.splits)

lemma length_retrySetup:
  "length (fst (retrySetup aux mag j)) = length aux"
  "length (snd (retrySetup aux mag j)) = length mag"
  by (simp_all add: retrySetup_def Let_def length_memcpy length_applyPhaseCorrection)

lemma length_candidate:
  "length (st_mag (fst (candidate msgLen j s))) = length (st_mag s)"
  "length (st_aux (fst (candidate msgLen j s))) = length (st_aux s)"
  by (cases "st_useCorrection s"; simp add: candidate_plain candidate_retry length_memcpy length_retrySetup)+

text \<open>
  Claim C6, as the code has it. For a candidate that reaches the check with the resolved
  bit length \<open>L > 0\<close>, its window inside the buffer: the sum of \<open>|low - high|\<close> over the
  \<open>L\<close> bit positions is divided by \<open>msglen * 4\<close>, where \<open>msglen = L / 8\<close> is the length in
  bytes, that is by \<open>L / 2\<close>, half the bit count. The candidate is rejected exactly when
  this average is below \<open>10 * 255\<close>, that is when twice the sum is below \<open>2550 * L\<close>; the
  scan then continues at the next offset and the decoder and the callback are not invoked;
  otherwise the candidate goes on to the hand-over.
\<close>

theorem quality_gate:
  assumes "st_useCorrection s \<or> \<not> preambleRejects (st_mag s) j"
    and "candidate msgLen j s = (s1, errors, L)"
    and "0 < L" and "0 \<le> j" and "j + PREAMBLE_US * 2 + 2 * int L \<le> int (length (st_mag s))"
  shows "averageDelta (st_mag s1) j (real L / 8)
           = Some (real_of_int (\<Sum>b<L. \<bar>lowAt (st_mag s1) j b - highAt (st_mag s1) j b\<bar>) / (real L / 2)) \<and>
         detectStep msgLen parse opts j s =
           (if 2 * (\<Sum>b<L. \<bar>lowAt (st_mag s1) j b - highAt (st_mag s1) j b\<bar>) < 2550 * int L
            then (j, s1\<lparr>st_useCorrection := False\<rparr>)
            else handOver parse opts j L errors s1) \<and>
         st_decoder s1 = st_decoder s \<and> st_out s1 = st_out s"
proof -
  have s1: "s1 = fst (candidate msgLen j s)" using assms(2) by simp
  have len: "j + PREAMBLE_US * 2 + 2 * int L \<le> int (length (st_mag s1))"
    using assms(5) by (simp add: s1 length_candidate)
  note a = averageDelta_eq[OF assms(3,4) len]
  note b = averageDelta_lt[OF assms(3,4) len]
  have "detectStep msgLen parse opts j s =
          (if lt (averageDelta (st_mag s1) j (real L / 8)) (num (10 * 255))
           then (j, s1\<lparr>st_useCorrection := False\<rparr>)
           else handOver parse opts j L errors s1)"
    using assms(1,2) by (auto simp: detectStep_def Let_def)
  then have c: "detectStep msgLen parse opts j s =
           (if 2 * (\<Sum>b<L. \<bar>lowAt (st_mag s1) j b - highAt (st_mag s1) j b\<bar>) < 2550 * int L
            then (j, s1\<lparr>st_useCorrection := False\<rparr>)
            else handOver parse opts j L errors s1)"
    unfolding b .
  from a c show ?thesis by (simp add: s1 candidate_keeps)
qed

lemma length_pulseFrame: "length (pulseFrame a) = 241"
  by (simp add: pulseFrame_def)

lemma pulseFrame_bits:
  assumes "b < 112"
  shows "lowAt (pulseFrame a) 0 b = int (unat a)" "highAt (pulseFrame a) 0 b = 0"
proof -
  have n: "nat (16 + 2 * int b) = 16 + 2 * b" "nat (2 * int b + 17) = 2 * b + 17" by simp_all
  show "lowAt (pulseFrame a) 0 b = int (unat a)"
    using assms by (simp add: lowAt_def pulseFrame_def PREAMBLE_US_def n)
  show "highAt (pulseFrame a) 0 b = 0"
    using assms by (simp add: highAt_def pulseFrame_def PREAMBLE_US_def n add.commute)
qed

lemma pulseFrame_sum:
  assumes "L \<le> 112"
  shows "(\<Sum>b<L. \<bar>lowAt (pulseFrame a) 0 b - highAt (pulseFrame a) 0 b\<bar>) = int L * int (unat a)"
proof -
  have "(\<Sum>b<L. \<bar>lowAt (pulseFrame a) 0 b - highAt (pulseFrame a) 0 b\<bar>) = (\<Sum>b<L. int (unat a))"
    using assms by (intro sum.cong) (simp_all add: pulseFrame_bits)
  then show ?thesis by simp
qed

lemma pulseFrame_sumDelta:
  "sumDelta (pulseFrame a) 0 (real 56 / 8) = Some (real_of_int (56 * int (unat a)))"
proof -
  have c: "\<lceil>real 56 / 8 * 8 * 2\<rceil> = 2 * int 56" by simp
  have "sumDelta (pulseFrame a) 0 (real 56 / 8)
          = Some (real_of_int (\<Sum>b<56. \<bar>lowAt (pulseFrame a) 0 b - highAt (pulseFrame a) 0 b\<bar>))"
    unfolding sumDelta_def c evens0_map
    by (rule sumDelta_prefix) (simp_all add: length_pulseFrame PREAMBLE_US_def)
  then show ?thesis using pulseFrame_sum[of 56 a] by simp
qed

text \<open>
  The claim C6 as stated fails. With pulses of height 6000 and \<open>L = 56\<close> the average of
  the code is 12000 and the candidate passes, while the sum divided by \<open>L * 4\<close> is 1500,
  below the threshold. With pulses of height 1000 the code's average is 2000 and the
  candidate is rejected, while the sum divided by a quarter of the bit count is 4000.
\<close>

theorem quality_gate_counterexample:
  "\<not> lt (averageDelta (pulseFrame 6000) 0 (real 56 / 8)) (num (10 * 255)) \<and>
   lt (specAverageDelta (pulseFrame 6000) 0 56) (num (10 * 255)) \<and>
   lt (averageDelta (pulseFrame 1000) 0 (real 56 / 8)) (num (10 * 255)) \<and>
   \<not> lt (specAverageDeltaQuarter (pulseFrame 1000) 0 56) (num (10 * 255))"
  unfolding averageDelta_def specAverageDelta_def specAverageDeltaQuarter_def pulseFrame_sumDelta
  by (simp add: ndiv_def lt_def num_def)

section \<open>Bit slicing\<close>

lemma sliceBit_inrange:
  assumes "0 \<le> j" "j + PREAMBLE_US * 2 + 2 * int n + 1 < int (length mag)" "n < length bs"
  shows "sliceBit mag j (2 * int n) (bs, e) =
           (bs[n := (if inherits mag j n then bs ! (n - 1)
                     else if lowAt mag j n = highAt mag j n then 2
                     else if lowAt mag j n > highAt mag j n then 1 else 0)],
            e + (if erased mag j n \<and> n < 56 then 1 else 0))"
proof -
  have r1: "rd mag (j + 2 * int n + PREAMBLE_US * 2) = Some (real_of_int (lowAt mag j n))"
    using assms by (simp add: rd_def lowAt_def PREAMBLE_US_def algebra_simps)
  have r2: "rd mag (j + 2 * int n + PREAMBLE_US * 2 + 1) = Some (real_of_int (highAt mag j n))"
    using assms by (simp add: rd_def highAt_def PREAMBLE_US_def algebra_simps)
  have d: "(if lt (nsub (Some (real_of_int (lowAt mag j n))) (Some (real_of_int (highAt mag j n)))) (num 0)
            then nneg (nsub (Some (real_of_int (lowAt mag j n))) (Some (real_of_int (highAt mag j n))))
            else nsub (Some (real_of_int (lowAt mag j n))) (Some (real_of_int (highAt mag j n))))
           = Some (real_of_int \<bar>lowAt mag j n - highAt mag j n\<bar>)"
    by (simp add: lt_def nsub_def nneg_def num_def)
  have c1: "(2 * int n > 0 \<and> lt (Some (real_of_int \<bar>lowAt mag j n - highAt mag j n\<bar>)) (num 256))
            = inherits mag j n"
  proof -
    have "(real_of_int \<bar>lowAt mag j n - highAt mag j n\<bar> < real_of_int 256)
          = (\<bar>lowAt mag j n - highAt mag j n\<bar> < 256)"
      by (rule of_int_less_iff)
    then show ?thesis by (simp add: lt_def num_def inherits_def)
  qed
  have w: "wr bs (int n) v = bs[n := toUint v]" for v
    using assms(3) by (simp add: wr_def)
  have p: "0 < n \<Longrightarrow> toUint (rd bs (int n - 1)) = bs ! (n - 1)"
    using assms(3) by (simp add: rd_def toUint_unsigned nat_diff_distrib)
  have k: "(toUint (num 2) :: 8 word) = 2" "(toUint (num 1) :: 8 word) = 1" "(toUint (num 0) :: 8 word) = 0"
    by (simp_all add: toUint_def num_def)
  have g: "gt (Some (real_of_int (lowAt mag j n))) (Some (real_of_int (highAt mag j n)))
           = (lowAt mag j n > highAt mag j n)"
    by (simp add: gt_def)
  have h: "2 * int n div 2 = int n" by simp
  have q: "(Some (real_of_int (lowAt mag j n)) = Some (real_of_int (highAt mag j n)))
           = (lowAt mag j n = highAt mag j n)" by simp
  have t: "(2 * int n < SHORT_MSG_BITS * 2) = (n < 56)" by (simp add: SHORT_MSG_BITS_def)
  have step: "sliceBit mag j (2 * int n) (bs, e) =
     (if inherits mag j n then (bs[n := toUint (rd bs (int n - 1))], e)
      else if lowAt mag j n = highAt mag j n
        then (bs[n := toUint (num 2)], if n < 56 then e + 1 else e)
      else if lowAt mag j n > highAt mag j n then (bs[n := toUint (num 1)], e)
      else (bs[n := toUint (num 0)], e))"
    unfolding sliceBit_def Let_def r1 r2 d c1 prod.case h w q g t by (rule refl)
  show ?thesis
  proof (cases "inherits mag j n")
    case True
    then have "0 < n" by (simp add: inherits_def)
    with True show ?thesis unfolding step by (simp add: p erased_def)
  next
    case False
    then show ?thesis unfolding step by (simp add: k erased_def)
  qed
qed

lemma sliceBits_prefix:
  assumes "0 \<le> j" "j + PREAMBLE_US * 2 + 2 * int n \<le> int (length mag)" "n \<le> length bits"
  shows "length (fst (fold (sliceBit mag j) (map (\<lambda>b. 2 * int b) [0..<n]) (bits, 0))) = length bits \<and>
         (\<forall>b<n. fst (fold (sliceBit mag j) (map (\<lambda>b. 2 * int b) [0..<n]) (bits, 0)) ! b =
            (if inherits mag j b
             then fst (fold (sliceBit mag j) (map (\<lambda>b. 2 * int b) [0..<n]) (bits, 0)) ! (b - 1)
             else if lowAt mag j b = highAt mag j b then 2
             else if lowAt mag j b > highAt mag j b then 1 else 0)) \<and>
         snd (fold (sliceBit mag j) (map (\<lambda>b. 2 * int b) [0..<n]) (bits, 0))
           = length (filter (erased mag j) [0..<min n 56])"
  using assms
proof (induction n)
  case 0
  then show ?case by simp
next
  case (Suc n)
  let ?F = "fold (sliceBit mag j) (map (\<lambda>b. 2 * int b) [0..<n]) (bits, 0)"
  obtain bs e where F: "?F = (bs, e)" by (cases ?F)
  from Suc.IH Suc.prems F have ih:
    "length bs = length bits"
    "\<forall>b<n. bs ! b = (if inherits mag j b then bs ! (b - 1)
             else if lowAt mag j b = highAt mag j b then 2
             else if lowAt mag j b > highAt mag j b then 1 else 0)"
    "e = length (filter (erased mag j) [0..<min n 56])"
    by simp_all
  have n: "n < length bs" using Suc.prems ih(1) by simp
  have r: "j + PREAMBLE_US * 2 + 2 * int n + 1 < int (length mag)" using Suc.prems by simp
  let ?v = "(if inherits mag j n then bs ! (n - 1)
             else if lowAt mag j n = highAt mag j n then 2
             else if lowAt mag j n > highAt mag j n then 1 else 0)"
  have S: "fold (sliceBit mag j) (map (\<lambda>b. 2 * int b) [0..<Suc n]) (bits, 0)
             = (bs[n := ?v], e + (if erased mag j n \<and> n < 56 then 1 else 0))"
    using sliceBit_inrange[OF Suc.prems(1) r n, of e] by (simp add: F)
  have a: "length (bs[n := ?v]) = length bits" using ih(1) by simp
  have b: "bs[n := ?v] ! b = (if inherits mag j b then bs[n := ?v] ! (b - 1)
             else if lowAt mag j b = highAt mag j b then 2
             else if lowAt mag j b > highAt mag j b then 1 else 0)" if "b < Suc n" for b
  proof (cases "b = n")
    case True
    have "0 < n \<Longrightarrow> bs[n := ?v] ! (n - 1) = bs ! (n - 1)" by simp
    then show ?thesis using True n by (auto simp: inherits_def)
  next
    case False
    with that have "b < n" by simp
    then have "bs[n := ?v] ! b = bs ! b" "bs[n := ?v] ! (b - 1) = bs ! (b - 1)" by simp_all
    with ih(2) \<open>b < n\<close> show ?thesis by simp
  qed
  have c: "e + (if erased mag j n \<and> n < 56 then 1 else 0) = length (filter (erased mag j) [0..<min (Suc n) 56])"
  proof (cases "n < 56")
    case True
    then have "min (Suc n) 56 = Suc n" "min n 56 = n" by simp_all
    then show ?thesis using ih(3) True by simp
  next
    case False
    then have "min (Suc n) 56 = 56" "min n 56 = 56" by simp_all
    then show ?thesis using ih(3) False by simp
  qed
  show ?case unfolding S using a b c by simp
qed


section \<open>The sample frame\<close>

lemma rd_pulseFrame:
  "0 \<le> k \<Longrightarrow> k < 241 \<Longrightarrow>
     rd (pulseFrame a) k =
       Some (real (unat (if nat k \<in> {0, 2, 7, 9} \<or> (16 \<le> nat k \<and> nat k < 240 \<and> even (nat k)) then a else 0)))"
  by (simp add: rd_def pulseFrame_def)

lemma preamble_pulseFrame: "\<not> preambleRejects (pulseFrame 6000) 0"
  by (simp add: preambleRejects_def rd_pulseFrame gt_def lt_def ge_def nadd_def ndiv_def)

lemma initScan_fields:
  "st_mag (initScan dec mag) = mag"
  "st_aux (initScan dec mag) = replicate 224 0"
  "st_bits (initScan dec mag) = replicate 112 0"
  "st_msg (initScan dec mag) = replicate 56 0"
  "st_useCorrection (initScan dec mag) = False"
  "st_decoder (initScan dec mag) = dec"
  "st_out (initScan dec mag) = []"
  by (simp_all add: initScan_def LONG_MSG_BITS_def)

lemma candidate_bitlen: "snd (snd (candidate shortOnly j s)) = 56"
  by (simp add: candidate_def Let_def shortOnly_def split: prod.splits)

text \<open>
  The theorem on the sample frame with pulses of height 6000: the first visit of offset 0
  passes the preamble tests and the signal-quality check and reaches the hand-over.
\<close>

theorem quality_gate_witness:
  "\<not> preambleRejects (pulseFrame 6000) 0 \<and>
   detectStep shortOnly rejectingParser defaultOptions 0 (initScan 0 (pulseFrame 6000) :: (nat, unit) scan)
     = handOver rejectingParser defaultOptions 0 56
         (fst (snd (candidate shortOnly 0 (initScan 0 (pulseFrame 6000) :: (nat, unit) scan))))
         (fst (candidate shortOnly 0 (initScan 0 (pulseFrame 6000) :: (nat, unit) scan)))"
proof -
  let ?s = "initScan (0::nat) (pulseFrame 6000) :: (nat, unit) scan"
  let ?s1 = "fst (candidate shortOnly 0 ?s)"
  let ?e = "fst (snd (candidate shortOnly 0 ?s))"
  have c: "candidate shortOnly 0 ?s = (?s1, ?e, 56)"
    using candidate_bitlen[of 0 ?s] by (simp add: prod_eq_iff)
  have p: "st_useCorrection ?s \<or> \<not> preambleRejects (st_mag ?s) 0"
    by (simp add: initScan_fields preamble_pulseFrame)
  have l: "0 + PREAMBLE_US * 2 + 2 * int 56 \<le> int (length (st_mag ?s))"
    by (simp add: initScan_fields length_pulseFrame PREAMBLE_US_def)
  have m: "st_mag ?s1 = pulseFrame 6000"
    by (simp add: candidate_plain initScan_fields)
  have z: "(0::nat) < 56" "(0::int) \<le> 0" by simp_all
  note q = quality_gate[OF p c z l, of rejectingParser defaultOptions]
  note d = q[THEN conjunct2, THEN conjunct1]
  have g: "\<not> 2 * (\<Sum>b<56. \<bar>lowAt (st_mag ?s1) 0 b - highAt (st_mag ?s1) 0 b\<bar>) < 2550 * int 56"
    unfolding m using pulseFrame_sum[of 56 6000] by simp
  show ?thesis
    using d unfolding if_not_P[OF g] by (simp add: preamble_pulseFrame)
qed

lemma erased_first: "erased mag j b \<Longrightarrow> b = 0"
  by (auto simp: erased_def inherits_def)

lemma errors_le_1:
  assumes "0 \<le> j" "j + FULL_LEN * 2 \<le> int (length mag)" "length bits = 112"
  shows "snd (sliceBits mag j bits) = (if lowAt mag j 0 = highAt mag j 0 then 1 else 0)"
proof -
  have e: "sliceBits mag j bits = fold (sliceBit mag j) (map (\<lambda>b. 2 * int b) [0..<112]) (bits, 0)"
    using evens0_map[of 112] by (simp add: sliceBits_def LONG_MSG_BITS_def)
  have r: "j + PREAMBLE_US * 2 + 2 * int 112 \<le> int (length mag)"
    using assms(2) by (simp add: FULL_LEN_def PREAMBLE_US_def LONG_MSG_BITS_def)
  have l: "112 \<le> length bits" using assms(3) by simp
  have "snd (sliceBits mag j bits) = length (filter (erased mag j) [0..<56])"
    using sliceBits_prefix[OF assms(1) r l] unfolding e by simp
  also have "[0..<56] = 0 # [1..<56]" by (simp add: upt_rec)
  also have "filter (erased mag j) (0 # [1..<56]) = (if erased mag j 0 then [0] else [])"
    by (auto simp: filter_empty_conv dest: erased_first)
  finally show ?thesis by (simp add: erased_def inherits_def)
qed


section \<open>The loop body and the retry\<close>

lemma handOver_eq:
  "handOver parse opts j L e s =
     (let mm = fst (parse (st_decoder s) (st_msg s) (crcOnly opts));
          dec = snd (parse (st_decoder s) (st_msg s) (crcOnly opts));
          accepted = (e = 0 \<or> (truthy (aggressive opts) \<and> e < 3));
          good = (accepted \<and> crcOk mm);
          j1 = (if good then j + (PREAMBLE_US + int L) * 2 else j);
          out = (if accepted \<and> (crcOk mm \<or> \<not> truthy (checkCrc opts))
                 then st_out s @ [if crcOk mm \<and> st_useCorrection s then mm\<lparr>phaseCorrected := True\<rparr> else mm]
                 else st_out s);
          s1 = (if accepted then s\<lparr>st_decoder := dec, st_out := out\<rparr> else s)
      in if \<not> good \<and> \<not> st_useCorrection s
         then (j1 - 1, s1\<lparr>st_useCorrection := True\<rparr>)
         else (j1, s1\<lparr>st_useCorrection := False\<rparr>))"
  by (auto simp: handOver_def Let_def split: prod.splits)

lemma handOver_arrays:
  "st_mag (snd (handOver parse opts j L e s)) = st_mag s"
  "st_aux (snd (handOver parse opts j L e s)) = st_aux s"
  "st_bits (snd (handOver parse opts j L e s)) = st_bits s"
  "st_msg (snd (handOver parse opts j L e s)) = st_msg s"
  by (simp_all add: handOver_eq Let_def)

lemma handOver_out:
  "st_out (snd (handOver parse opts j L e s)) =
     (if (e = 0 \<or> (truthy (aggressive opts) \<and> e < 3)) \<and>
         (crcOk (fst (parse (st_decoder s) (st_msg s) (crcOnly opts))) \<or> \<not> truthy (checkCrc opts))
      then st_out s @
           [if crcOk (fst (parse (st_decoder s) (st_msg s) (crcOnly opts))) \<and> st_useCorrection s
            then (fst (parse (st_decoder s) (st_msg s) (crcOnly opts)))\<lparr>phaseCorrected := True\<rparr>
            else fst (parse (st_decoder s) (st_msg s) (crcOnly opts))]
      else st_out s)"
  by (simp add: handOver_eq Let_def)

lemma handOver_decoder:
  "st_decoder (snd (handOver parse opts j L e s)) =
     (if e = 0 \<or> (truthy (aggressive opts) \<and> e < 3)
      then snd (parse (st_decoder s) (st_msg s) (crcOnly opts)) else st_decoder s)"
  by (simp add: handOver_eq Let_def)

lemma handOver_invalid:
  assumes "\<not> crcOk (fst (parse (st_decoder s) (st_msg s) (crcOnly opts)))"
  shows "fst (handOver parse opts j L e s) = (if st_useCorrection s then j else j - 1)"
    and "st_useCorrection (snd (handOver parse opts j L e s)) = (\<not> st_useCorrection s)"
  using assms by (simp_all add: handOver_eq Let_def)

lemma constructor_options:
  "checkCrc (options (constructor newDecoder opts)) = Some True"
  "aggressive (options (constructor newDecoder opts)) = Some (Option.bind opts aggressive \<noteq> Some False)"
  "magOpt (options (constructor newDecoder opts)) = Option.bind opts magOpt"
  "mag_priv (constructor newDecoder opts) = None"
  by (simp_all add: constructor_def Let_def orElse_def truthy_def)

lemma defaultOptions_fields:
  "truthy (checkCrc defaultOptions)" "truthy (aggressive defaultOptions)"
  by (simp_all add: defaultOptions_def constructor_options truthy_def)

lemma detectStep_unfold:
  assumes "st_useCorrection s \<or> \<not> preambleRejects (st_mag s) j"
  shows "detectStep msgLen parse opts j s =
           (if lt (averageDelta (st_mag (fst (candidate msgLen j s))) j
                     (real (snd (snd (candidate msgLen j s))) / 8)) (num (10 * 255))
            then (j, (fst (candidate msgLen j s))\<lparr>st_useCorrection := False\<rparr>)
            else handOver parse opts j (snd (snd (candidate msgLen j s)))
                   (fst (snd (candidate msgLen j s))) (fst (candidate msgLen j s)))"
  using assms by (auto simp: detectStep_def Let_def split: prod.splits)

lemma detectStep_arrays:
  assumes "st_useCorrection s \<or> \<not> preambleRejects (st_mag s) j"
  shows "st_mag (snd (detectStep msgLen parse opts j s)) = st_mag (fst (candidate msgLen j s))"
    and "st_aux (snd (detectStep msgLen parse opts j s)) = st_aux (fst (candidate msgLen j s))"
  unfolding detectStep_unfold[OF assms] by (simp_all add: handOver_arrays)

lemma rejectingParser_invalid: "\<not> crcOk (fst (rejectingParser d m c))"
  by (simp add: rejectingParser_def)

lemma detectStep_rejecting_out:
  assumes "truthy (checkCrc opts)"
  shows "st_out (snd (detectStep msgLen rejectingParser opts j s)) = st_out s"
proof (cases "st_useCorrection s \<or> \<not> preambleRejects (st_mag s) j")
  case True
  show ?thesis
    unfolding detectStep_unfold[OF True]
    using assms by (simp add: handOver_out rejectingParser_invalid candidate_keeps)
next
  case False
  then show ?thesis by (simp add: detectStep_def)
qed

lemma detectStep_retry_next:
  assumes "st_useCorrection s"
  shows "fst (detectStep msgLen rejectingParser opts j s) = j"
    and "\<not> st_useCorrection (snd (detectStep msgLen rejectingParser opts j s))"
proof -
  have r: "st_useCorrection s \<or> \<not> preambleRejects (st_mag s) j" using assms by simp
  show "fst (detectStep msgLen rejectingParser opts j s) = j"
    unfolding detectStep_unfold[OF r]
    using assms by (simp add: handOver_invalid rejectingParser_invalid candidate_keeps)
  show "\<not> st_useCorrection (snd (detectStep msgLen rejectingParser opts j s))"
    unfolding detectStep_unfold[OF r]
    using assms by (simp add: handOver_invalid rejectingParser_invalid candidate_keeps)
qed

lemma detectStep_first_next:
  assumes "\<not> st_useCorrection s" "\<not> preambleRejects (st_mag s) j"
    and "\<not> lt (averageDelta (st_mag s) j (real (snd (snd (candidate msgLen j s))) / 8)) (num (10 * 255))"
  shows "fst (detectStep msgLen rejectingParser opts j s) = j - 1"
    and "st_useCorrection (snd (detectStep msgLen rejectingParser opts j s))"
proof -
  have r: "st_useCorrection s \<or> \<not> preambleRejects (st_mag s) j" using assms by simp
  have g: "\<not> lt (averageDelta (st_mag (fst (candidate msgLen j s))) j
                     (real (snd (snd (candidate msgLen j s))) / 8)) (num (10 * 255))"
    using assms(1,3) by (simp add: candidate_plain)
  show "fst (detectStep msgLen rejectingParser opts j s) = j - 1"
    unfolding detectStep_unfold[OF r] if_not_P[OF g]
    using assms(1) by (simp add: handOver_invalid rejectingParser_invalid candidate_keeps)
  show "st_useCorrection (snd (detectStep msgLen rejectingParser opts j s))"
    unfolding detectStep_unfold[OF r] if_not_P[OF g]
    using assms(1) by (simp add: handOver_invalid rejectingParser_invalid candidate_keeps)
qed

lemma detectLoop_unfold:
  "detectLoop msgLen parse opts maglen j s =
     (if real_of_int j < maglen - real_of_int (FULL_LEN * 2)
      then detectLoop msgLen parse opts maglen (fst (detectStep msgLen parse opts j s) + 1)
             (snd (detectStep msgLen parse opts j s))
      else s)"
  by (subst detectLoop.simps) (simp add: case_prod_beta)

lemma examined_unfold:
  "examined msgLen parse opts maglen j s =
     (if real_of_int j < maglen - real_of_int (FULL_LEN * 2)
      then (j, st_useCorrection s) #
           examined msgLen parse opts maglen (fst (detectStep msgLen parse opts j s) + 1)
             (snd (detectStep msgLen parse opts j s))
      else [])"
  by (subst examined.simps) (simp add: case_prod_beta)

lemma retry_window:
  assumes "st_useCorrection s" "length (st_aux s) = 224"
  shows "rd (st_mag (fst (candidate msgLen j s))) k =
     (if j + 16 \<le> k \<and> k < j + 240 \<and> 0 \<le> k \<and> k < int (length (st_mag s))
      then (if j + 16 \<le> k - (j + 16)
            then Some (case rd (st_mag s) (k - (j + 16)) of None \<Rightarrow> 0 | Some x \<Rightarrow> x)
            else Some (case rd (st_aux s) (k - (j + 16)) of None \<Rightarrow> 0 | Some x \<Rightarrow> x))
      else rd (st_mag s) k)"
proof -
  let ?aux1 = "fst (retrySetup (st_aux s) (st_mag s) j)"
  let ?mag1 = "snd (retrySetup (st_aux s) (st_mag s) j)"
  have a: "?aux1 = memcpy (st_aux s) 0 (st_mag s) (j + 16) 224"
    using assms(2) by (simp add: retrySetup_def Let_def PREAMBLE_US_def)
  have ra: "rd ?aux1 i = (if j + 16 \<le> i \<and> i < 224 \<and> 0 \<le> i
                          then Some (case rd (st_mag s) i of None \<Rightarrow> 0 | Some x \<Rightarrow> x)
                          else rd (st_aux s) i)" for i
    unfolding a using assms(2) by (simp add: rd_memcpy)
  have out: "rd ?mag1 k = rd (st_mag s) k" if "k < j + 16 \<or> j + 240 \<le> k"
  proof -
    from that have "k < j + 18 \<or> j + 222 < k" by auto
    then have "rd (applyPhaseCorrection (st_mag s) j) k = rd (st_mag s) k"
      by (rule rd_applyPhaseCorrection_other)
    then show ?thesis by (simp add: retrySetup_def Let_def)
  qed
  have m: "st_mag (fst (candidate msgLen j s)) = memcpy ?mag1 (j + 16) ?aux1 0 224"
    using assms by (simp add: candidate_retry length_retrySetup PREAMBLE_US_def)
  show ?thesis
  proof (cases "j + 16 \<le> k \<and> k < j + 240 \<and> 0 \<le> k \<and> k < int (length (st_mag s))")
    case True
    then have i: "0 \<le> k - (j + 16)" "k - (j + 16) < 224" by simp_all
    have "rd (st_mag (fst (candidate msgLen j s))) k
            = Some (case rd ?aux1 (k - (j + 16)) of None \<Rightarrow> 0 | Some x \<Rightarrow> x)"
      unfolding m using True by (simp add: rd_memcpy length_retrySetup)
    then show ?thesis using True i by (simp add: ra)
  next
    case False
    have "rd (st_mag (fst (candidate msgLen j s))) k = rd ?mag1 k"
      unfolding m using False by (auto simp: rd_memcpy length_retrySetup)
    moreover have "rd ?mag1 k = rd (st_mag s) k"
    proof (cases "k < j + 16 \<or> j + 240 \<le> k")
      case True
      then show ?thesis by (rule out)
    next
      case False
      with \<open>\<not> (j + 16 \<le> k \<and> k < j + 240 \<and> 0 \<le> k \<and> k < int (length (st_mag s)))\<close>
      have "\<not> (0 \<le> k \<and> k < int (length (st_mag s)))" by auto
      then show ?thesis by (auto simp: rd_def length_retrySetup)
    qed
    ultimately show ?thesis using False by auto
  qed
qed

lemma pulse_gate: "\<not> lt (averageDelta (pulseFrame 6000) 0 (real 56 / 8)) (num (10 * 255))"
proof -
  have l: "0 + PREAMBLE_US * 2 + 2 * int 56 \<le> int (length (pulseFrame 6000))"
    by (simp add: length_pulseFrame PREAMBLE_US_def)
  have z: "(0::nat) < 56" "(0::int) \<le> 0" by simp_all
  show ?thesis
    unfolding averageDelta_lt[OF z l] using pulseFrame_sum[of 56 6000] by simp
qed

lemma pulse_first_pass:
  fixes s0 :: "(nat, unit) scan"
  assumes "s0 = initScan 0 (pulseFrame 6000)" and "truthy (checkCrc opts)"
  shows "fst (detectStep shortOnly rejectingParser opts 0 s0) = - 1"
    and "st_useCorrection (snd (detectStep shortOnly rejectingParser opts 0 s0))"
    and "st_mag (snd (detectStep shortOnly rejectingParser opts 0 s0)) = pulseFrame 6000"
    and "st_aux (snd (detectStep shortOnly rejectingParser opts 0 s0)) = replicate 224 0"
    and "st_out (snd (detectStep shortOnly rejectingParser opts 0 s0)) = []"
proof -
  have u: "\<not> st_useCorrection s0" by (simp add: assms initScan_fields)
  have p: "\<not> preambleRejects (st_mag s0) 0" by (simp add: assms initScan_fields preamble_pulseFrame)
  have g: "\<not> lt (averageDelta (st_mag s0) 0 (real (snd (snd (candidate shortOnly 0 s0))) / 8)) (num (10 * 255))"
    unfolding candidate_bitlen using pulse_gate by (simp add: assms initScan_fields)
  have r: "st_useCorrection s0 \<or> \<not> preambleRejects (st_mag s0) 0" using p by simp
  show "fst (detectStep shortOnly rejectingParser opts 0 s0) = - 1"
    using detectStep_first_next(1)[OF u p g] by simp
  show "st_useCorrection (snd (detectStep shortOnly rejectingParser opts 0 s0))"
    by (rule detectStep_first_next(2)[OF u p g])
  show "st_mag (snd (detectStep shortOnly rejectingParser opts 0 s0)) = pulseFrame 6000"
    unfolding detectStep_arrays(1)[OF r] using u by (simp add: candidate_plain assms initScan_fields)
  show "st_aux (snd (detectStep shortOnly rejectingParser opts 0 s0)) = replicate 224 0"
    unfolding detectStep_arrays(2)[OF r] using u by (simp add: candidate_plain assms initScan_fields)
  show "st_out (snd (detectStep shortOnly rejectingParser opts 0 s0)) = []"
    by (simp add: detectStep_rejecting_out assms initScan_fields)
qed

lemma pulse_scan:
  fixes s0 s1 s2 :: "(nat, unit) scan"
  assumes "s0 = initScan 0 (pulseFrame 6000)"
    and "s1 = snd (detectStep shortOnly rejectingParser opts 0 s0)"
    and "s2 = snd (detectStep shortOnly rejectingParser opts 0 s1)"
    and "truthy (checkCrc opts)"
  shows "detectLoop shortOnly rejectingParser opts 241 0 s0 = s2"
    and "examined shortOnly rejectingParser opts 241 0 s0 = [(0, False), (0, True)]"
proof -
  note f = pulse_first_pass[OF assms(1,4)]
  have u1: "st_useCorrection s1" using f(2) by (simp add: assms(2))
  have j1: "fst (detectStep shortOnly rejectingParser opts 0 s0) + 1 = 0" using f(1) by simp
  have j2: "fst (detectStep shortOnly rejectingParser opts 0 s1) + 1 = 1"
    using detectStep_retry_next(1)[OF u1] by simp
  have c0: "real_of_int 0 < 241 - real_of_int (FULL_LEN * 2)"
    by (simp add: FULL_LEN_def PREAMBLE_US_def LONG_MSG_BITS_def)
  have c1: "\<not> real_of_int 1 < 241 - real_of_int (FULL_LEN * 2)"
    by (simp add: FULL_LEN_def PREAMBLE_US_def LONG_MSG_BITS_def)
  have "detectLoop shortOnly rejectingParser opts 241 0 s0
          = detectLoop shortOnly rejectingParser opts 241 0 s1"
    by (subst detectLoop_unfold) (simp only: c0 if_True j1 assms(2))
  also have "\<dots> = detectLoop shortOnly rejectingParser opts 241 1 s2"
    by (subst detectLoop_unfold) (simp only: c0 if_True j2 assms(3))
  also have "\<dots> = s2"
    by (subst detectLoop_unfold) (simp only: c1 if_False)
  finally show "detectLoop shortOnly rejectingParser opts 241 0 s0 = s2" .
  have u0: "st_useCorrection s0 = False" by (simp add: assms(1) initScan_fields)
  have "examined shortOnly rejectingParser opts 241 0 s0
          = (0, False) # examined shortOnly rejectingParser opts 241 0 s1"
    by (subst examined_unfold) (simp only: c0 if_True j1 assms(2) u0)
  also have "examined shortOnly rejectingParser opts 241 0 s1
          = (0, True) # examined shortOnly rejectingParser opts 241 1 s2"
    using u1 by (subst examined_unfold) (simp only: c0 if_True j2 assms(3))
  also have "examined shortOnly rejectingParser opts 241 1 s2 = []"
    by (subst examined_unfold) (simp only: c1 if_False)
  finally show "examined shortOnly rejectingParser opts 241 0 s0 = [(0, False), (0, True)]" .
qed

lemma retry_outside:
  assumes "st_useCorrection s" "length (st_aux s) = 224" "k < j + 16 \<or> j + 240 \<le> k"
  shows "rd (st_mag (fst (candidate msgLen j s))) k = rd (st_mag s) k"
  unfolding retry_window[OF assms(1,2)] using assms(3) by auto

lemma candidate_errors:
  "\<not> st_useCorrection s \<Longrightarrow> fst (snd (candidate msgLen j s)) = snd (sliceBits (st_mag s) j (st_bits s))"
  by (simp add: candidate_def Let_def split: prod.splits)

lemma detectStep_decoder_mono:
  "st_decoder s \<le> st_decoder (snd (detectStep msgLen rejectingParser opts j s))"
proof (cases "st_useCorrection s \<or> \<not> preambleRejects (st_mag s) j")
  case True
  show ?thesis
    unfolding detectStep_unfold[OF True]
    by (simp add: handOver_decoder candidate_keeps rejectingParser_def)
next
  case False
  then show ?thesis by (simp add: detectStep_def)
qed

lemma pulse_first_decoder:
  fixes s0 :: "(nat, unit) scan"
  assumes "s0 = initScan 0 (pulseFrame 6000)"
  shows "st_decoder (snd (detectStep shortOnly rejectingParser opts 0 s0)) = 1"
proof -
  have u: "\<not> st_useCorrection s0" by (simp add: assms initScan_fields)
  have p: "\<not> preambleRejects (st_mag s0) 0" by (simp add: assms initScan_fields preamble_pulseFrame)
  have r: "st_useCorrection s0 \<or> \<not> preambleRejects (st_mag s0) 0" using p by simp
  have g: "\<not> lt (averageDelta (st_mag (fst (candidate shortOnly 0 s0))) 0
                     (real (snd (snd (candidate shortOnly 0 s0))) / 8)) (num (10 * 255))"
    unfolding candidate_bitlen using pulse_gate u by (simp add: candidate_plain assms initScan_fields)
  have a: "(0::int) \<le> 0" "0 + FULL_LEN * 2 \<le> int (length (pulseFrame 6000))"
    "length (replicate 112 (0 :: 8 word)) = 112"
    by (simp_all add: length_pulseFrame FULL_LEN_def PREAMBLE_US_def LONG_MSG_BITS_def)
  have e: "fst (snd (candidate shortOnly 0 s0)) = 0"
    unfolding candidate_errors[OF u]
    using errors_le_1[OF a] by (simp add: assms initScan_fields pulseFrame_bits)
  have d0: "st_decoder s0 = 0" by (simp add: assms initScan_fields)
  show ?thesis
    unfolding detectStep_unfold[OF r] if_not_P[OF g]
    by (simp add: handOver_decoder e candidate_keeps rejectingParser_def d0)
qed

text \<open>
  Claim C1 fails on the code. On the sample frame, with a decoder that reports every
  message as CRC-invalid, offset 0 is visited twice, the second time as the retry with
  correction; no message is delivered; and after the scan the sample 16, the first of the
  message window, is 0, where it was 6000 before. \<open>memcpy\<close> starts its loop variable at
  \<open>srcOffset\<close> and uses it as the index into \<open>src\<close> and, added to \<open>dstOffset\<close>, into \<open>dst\<close>:
  the snapshot fills \<open>aux\<close> from index \<open>j + 16\<close> only, and the restore copies all of
  \<open>aux\<close>, its untouched head included, over the window.
\<close>

theorem restore_fails:
  "rd (pulseFrame 6000) 16 = Some 6000 \<and>
   examined shortOnly rejectingParser defaultOptions 241 0 (initScan 0 (pulseFrame 6000))
     = [(0, False), (0, True)] \<and>
   snd (snd (detectMessage shortOnly rejectingParser defaultOptions 0 (pulseFrame 6000) 241)) = [] \<and>
   rd (fst (detectMessage shortOnly rejectingParser defaultOptions 0 (pulseFrame 6000) 241)) 16 = Some 0"
proof -
  define s0 :: "(nat, unit) scan" where "s0 = initScan 0 (pulseFrame 6000)"
  define s1 where "s1 = snd (detectStep shortOnly rejectingParser defaultOptions 0 s0)"
  define s2 where "s2 = snd (detectStep shortOnly rejectingParser defaultOptions 0 s1)"
  note f = pulse_first_pass[OF s0_def defaultOptions_fields(1)]
  note sc = pulse_scan[OF s0_def s1_def s2_def defaultOptions_fields(1)]
  have u1: "st_useCorrection s1" using f(2) by (simp add: s1_def)
  have a1: "length (st_aux s1) = 224" using f(4) by (simp add: s1_def)
  have r1: "st_useCorrection s1 \<or> \<not> preambleRejects (st_mag s1) 0" using u1 by simp
  have m2: "st_mag s2 = st_mag (fst (candidate shortOnly 0 s1))"
    unfolding s2_def by (rule detectStep_arrays(1)[OF r1])
  have "rd (st_mag s2) 16 = Some (case rd (st_aux s1) 0 of None \<Rightarrow> 0 | Some x \<Rightarrow> x)"
    unfolding m2 retry_window[OF u1 a1] using f(3) by (simp add: s1_def length_pulseFrame)
  also have "\<dots> = Some 0" using f(4) by (simp add: s1_def rd_def)
  finally have w: "rd (st_mag s2) 16 = Some 0" .
  have o: "st_out s2 = []"
    unfolding s2_def using f(5) by (simp add: detectStep_rejecting_out defaultOptions_fields s1_def)
  have d: "detectMessage shortOnly rejectingParser defaultOptions 0 (pulseFrame 6000) 241
             = (st_mag s2, st_decoder s2, st_out s2)"
    unfolding detectMessage_def Let_def using sc(1) by (simp add: s0_def)
  have p: "rd (pulseFrame 6000) 16 = Some 6000" by (simp add: rd_pulseFrame)
  show ?thesis
    unfolding d using p sc(2) o w by (simp add: s0_def)
qed

text \<open>
  Claim C2 fails on the code. A demodulator built with the options \<open>{ checkCrc: false }\<close>
  has \<open>checkCrc\<close> set (\<open>options?.checkCrc || true\<close>). On the sample frame, with a decoder
  that counts its calls and reports every message as CRC-invalid, the decoder is handed a
  candidate and nothing is delivered to the callback.
\<close>

theorem checkCrc_false_ignored:
  "checkCrc uncheckedRequest = Some False \<and>
   checkCrc (options (constructor (\<lambda>_. ()) (Some uncheckedRequest))) = Some True \<and>
   1 \<le> fst (snd (detectMessage shortOnly rejectingParser
                   (options (constructor (\<lambda>_. ()) (Some uncheckedRequest))) 0 (pulseFrame 6000) 241)) \<and>
   snd (snd (detectMessage shortOnly rejectingParser
                   (options (constructor (\<lambda>_. ()) (Some uncheckedRequest))) 0 (pulseFrame 6000) 241)) = []"
proof -
  let ?O = "options (constructor (\<lambda>_. ()) (Some uncheckedRequest))"
  define s0 :: "(nat, unit) scan" where "s0 = initScan 0 (pulseFrame 6000)"
  define s1 where "s1 = snd (detectStep shortOnly rejectingParser ?O 0 s0)"
  define s2 where "s2 = snd (detectStep shortOnly rejectingParser ?O 0 s1)"
  have c: "checkCrc ?O = Some True" by (rule constructor_options)
  then have t: "truthy (checkCrc ?O)" by (simp add: truthy_def)
  note f = pulse_first_pass[OF s0_def t]
  note sc = pulse_scan[OF s0_def s1_def s2_def t]
  have o: "st_out s2 = []"
    unfolding s2_def using f(5) t by (simp add: detectStep_rejecting_out s1_def)
  have "st_decoder s1 = 1" unfolding s1_def by (rule pulse_first_decoder[OF s0_def])
  then have n: "1 \<le> st_decoder s2"
    unfolding s2_def using detectStep_decoder_mono[of s1 shortOnly ?O 0] by simp
  have d: "detectMessage shortOnly rejectingParser ?O 0 (pulseFrame 6000) 241
             = (st_mag s2, st_decoder s2, st_out s2)"
    unfolding detectMessage_def Let_def using sc(1) by (simp add: s0_def)
  show ?thesis
    unfolding d using c o n by (simp add: uncheckedRequest_def)
qed

section \<open>The guard of the phase correction\<close>

lemma rd_Cons: "rd (x # xs) k = (if k = 0 then Some (real (unat x)) else rd xs (k - 1))"
  by (auto simp: rd_def nat_diff_distrib nth_Cons split: nat.splits)

lemma rd_shiftedFrame:
  "1 \<le> k \<Longrightarrow> k < 242 \<Longrightarrow>
     rd shiftedFrame k =
       Some (real (unat (if nat (k - 1) \<in> {0, 2, 7, 9} \<or> (16 \<le> nat (k - 1) \<and> nat (k - 1) < 240 \<and> even (nat (k - 1)))
                         then 6000 else 0 :: 16 word)))"
  by (simp add: shiftedFrame_def rd_Cons rd_pulseFrame)

lemma length_shiftedFrame: "length shiftedFrame = 242"
  by (simp add: shiftedFrame_def length_pulseFrame)

lemma outOfPhase_shifted: "detectOutOfPhase shiftedFrame 1 = 0"
proof -
  have z: "rd shiftedFrame 0 = Some 0" by (simp add: shiftedFrame_def rd_Cons)
  show ?thesis
    by (simp add: detectOutOfPhase_def rd_shiftedFrame z gt_def ndiv_def)
qed

lemma evens_first: "evens 16 222 = 16 # evens 18 222"
proof -
  have "[16..221] = 16 # 17 # [18..221]"
    by (simp add: upto_rec1[of 16] upto_rec1[of 17])
  moreover have "filter (\<lambda>i. even (i - 16)) [18..221] = filter (\<lambda>i. even (i - 18)) [18..(221::int)]"
    by (rule filter_cong) simp_all
  ultimately show ?thesis by (simp add: evens_def)
qed

lemma phaseCorrection_first:
  "rd (applyPhaseCorrection mag offset) (offset + 18) = rd (phaseStep offset 16 mag) (offset + 18)"
proof -
  have "applyPhaseCorrection mag offset = fold (phaseStep offset) (evens 18 222) (phaseStep offset 16 mag)"
    by (simp add: applyPhaseCorrection_def LONG_MSG_BITS_def evens_first)
  moreover have "rd (fold (phaseStep offset) (evens 18 222) (phaseStep offset 16 mag)) (offset + 18)
                   = rd (phaseStep offset 16 mag) (offset + 18)"
    by (rule rd_phaseSteps_other) (auto simp: set_evens)
  ultimately show ?thesis by simp
qed

lemma correction_changes_shifted: "rd (applyPhaseCorrection shiftedFrame 1) 19 = Some 7500"
proof -
  have g: "gt (rd shiftedFrame (1 + 16)) (rd shiftedFrame (1 + 16 + 1))"
    by (simp add: rd_shiftedFrame gt_def)
  have m: "rd shiftedFrame (1 + 16 + 2) = Some (real 6000)"
    by (simp add: rd_shiftedFrame)
  from phaseStep_one[OF g m] phaseCorrection_first[of shiftedFrame 1] show ?thesis by simp
qed

text \<open>
  Claim C5, as the code has it. \<open>detectOutOfPhase\<close> answers 1, -1 or 0, and its answer
  decides: in a retry at offset \<open>j\<close> the bits are sliced from the corrected buffer if
  \<open>j \<noteq> 0\<close> and the answer is not 0 (\<open>if (j && detectOutOfPhase(mag, j))\<close>), and from the
  buffer as it is otherwise.
\<close>

theorem phase_correction_guard:
  assumes "st_useCorrection s"
  shows "(detectOutOfPhase (st_mag s) j = 1 \<or> detectOutOfPhase (st_mag s) j = - 1 \<or>
          detectOutOfPhase (st_mag s) j = 0) \<and>
         st_bits (fst (candidate msgLen j s)) =
           fst (sliceBits (if j \<noteq> 0 \<and> detectOutOfPhase (st_mag s) j \<noteq> 0
                           then applyPhaseCorrection (st_mag s) j else st_mag s) j (st_bits s))"
proof -
  have "detectOutOfPhase (st_mag s) j = 1 \<or> detectOutOfPhase (st_mag s) j = - 1 \<or>
        detectOutOfPhase (st_mag s) j = 0"
    by (simp add: detectOutOfPhase_def)
  moreover have "st_bits (fst (candidate msgLen j s)) =
           fst (sliceBits (if j \<noteq> 0 \<and> detectOutOfPhase (st_mag s) j \<noteq> 0
                           then applyPhaseCorrection (st_mag s) j else st_mag s) j (st_bits s))"
    using assms by (simp add: candidate_def retrySetup_def Let_def split: prod.splits)
  ultimately show ?thesis by simp
qed

text \<open>
  The theorem at the retry of offset 1 on the delayed sample frame: the heuristic answers
  0 and the bits are sliced from the frame itself.
\<close>

theorem phase_correction_guard_witness:
  "st_useCorrection ((initScan 0 shiftedFrame :: (nat, unit) scan)\<lparr>st_useCorrection := True\<rparr>) \<and>
   st_bits (fst (candidate shortOnly 1 ((initScan 0 shiftedFrame :: (nat, unit) scan)\<lparr>st_useCorrection := True\<rparr>)))
     = fst (sliceBits shiftedFrame 1 (replicate 112 0))"
  using phase_correction_guard[of "(initScan 0 shiftedFrame :: (nat, unit) scan)\<lparr>st_useCorrection := True\<rparr>" 1 shortOnly]
  by (simp add: initScan_fields outOfPhase_shifted)

lemma shifted_bits:
  "lowAt shiftedFrame 1 b = lowAt (pulseFrame 6000) 0 b"
  "highAt shiftedFrame 1 b = highAt (pulseFrame 6000) 0 b"
proof -
  have n: "nat (17 + 2 * int b) = Suc (nat (16 + 2 * int b))"
    "nat (18 + 2 * int b) = Suc (nat (17 + 2 * int b))" by simp_all
  show "lowAt shiftedFrame 1 b = lowAt (pulseFrame 6000) 0 b"
    by (simp add: lowAt_def shiftedFrame_def PREAMBLE_US_def n)
  show "highAt shiftedFrame 1 b = highAt (pulseFrame 6000) 0 b"
    by (simp add: highAt_def shiftedFrame_def PREAMBLE_US_def n)
qed

lemma shifted_gate: "\<not> lt (averageDelta shiftedFrame 1 (real 56 / 8)) (num (10 * 255))"
proof -
  have l: "1 + PREAMBLE_US * 2 + 2 * int 56 \<le> int (length shiftedFrame)"
    by (simp add: length_shiftedFrame PREAMBLE_US_def)
  have z: "(0::nat) < 56" "(0::int) \<le> 1" by simp_all
  show ?thesis
    unfolding averageDelta_lt[OF z l] shifted_bits using pulseFrame_sum[of 56 6000] by simp
qed

lemma shifted_preamble: "preambleRejects shiftedFrame 0" "\<not> preambleRejects shiftedFrame 1"
proof -
  have z: "rd shiftedFrame 0 = Some 0" by (simp add: shiftedFrame_def rd_Cons)
  show "preambleRejects shiftedFrame 0"
    by (simp add: preambleRejects_def z rd_shiftedFrame gt_def)
  show "\<not> preambleRejects shiftedFrame 1"
    by (simp add: preambleRejects_def rd_shiftedFrame gt_def lt_def ge_def nadd_def ndiv_def)
qed

lemma shifted_scan:
  "examined shortOnly rejectingParser defaultOptions 242 0 (initScan 0 shiftedFrame)
     = [(0, False), (1, False), (1, True)]"
proof -
  define s0 :: "(nat, unit) scan" where "s0 = initScan 0 shiftedFrame"
  define s1 where "s1 = snd (detectStep shortOnly rejectingParser defaultOptions 1 s0)"
  define s2 where "s2 = snd (detectStep shortOnly rejectingParser defaultOptions 1 s1)"
  have u0: "st_useCorrection s0 = False" and m0: "st_mag s0 = shiftedFrame"
    by (simp_all add: s0_def initScan_fields)
  have skip: "detectStep shortOnly rejectingParser defaultOptions 0 s0 = (0, s0)"
    by (simp add: detectStep_def u0 m0 shifted_preamble)
  have u: "\<not> st_useCorrection s0" using u0 by simp
  have p: "\<not> preambleRejects (st_mag s0) 1" by (simp add: m0 shifted_preamble)
  have g: "\<not> lt (averageDelta (st_mag s0) 1 (real (snd (snd (candidate shortOnly 1 s0))) / 8)) (num (10 * 255))"
    unfolding candidate_bitlen m0 by (rule shifted_gate)
  have j1: "fst (detectStep shortOnly rejectingParser defaultOptions 1 s0) + 1 = 1"
    using detectStep_first_next(1)[OF u p g] by simp
  have u1: "st_useCorrection s1"
    unfolding s1_def by (rule detectStep_first_next(2)[OF u p g])
  have j2: "fst (detectStep shortOnly rejectingParser defaultOptions 1 s1) + 1 = 2"
    using detectStep_retry_next(1)[OF u1] by simp
  have c0: "real_of_int 0 < 242 - real_of_int (FULL_LEN * 2)"
    and c1: "real_of_int 1 < 242 - real_of_int (FULL_LEN * 2)"
    and c2: "\<not> real_of_int 2 < 242 - real_of_int (FULL_LEN * 2)"
    by (simp_all add: FULL_LEN_def PREAMBLE_US_def LONG_MSG_BITS_def)
  have "examined shortOnly rejectingParser defaultOptions 242 0 s0
          = (0, False) # examined shortOnly rejectingParser defaultOptions 242 1 s0"
    by (subst examined_unfold) (simp only: c0 if_True skip u0 fst_conv snd_conv, simp)
  also have "examined shortOnly rejectingParser defaultOptions 242 1 s0
          = (1, False) # examined shortOnly rejectingParser defaultOptions 242 1 s1"
    by (subst examined_unfold) (simp only: c1 if_True j1 s1_def u0)
  also have "examined shortOnly rejectingParser defaultOptions 242 1 s1
          = (1, True) # examined shortOnly rejectingParser defaultOptions 242 2 s2"
    using u1 by (subst examined_unfold) (simp only: c1 if_True j2 s2_def)
  also have "examined shortOnly rejectingParser defaultOptions 242 2 s2 = []"
    by (subst examined_unfold) (simp only: c2 if_False)
  finally show ?thesis by (simp add: s0_def)
qed

text \<open>
  The claim C5 as stated fails. The scan of the delayed sample frame retries offset 1 with
  correction; there the heuristic answers 0, and the set-up of the retry leaves the buffer
  as it is, while the correction would have changed the sample 19 from 6000 to 7500.
\<close>

theorem phase_correction_counterexample:
  "examined shortOnly rejectingParser defaultOptions 242 0 (initScan 0 shiftedFrame)
     = [(0, False), (1, False), (1, True)] \<and>
   detectOutOfPhase shiftedFrame 1 = 0 \<and>
   snd (retrySetup (replicate 224 0) shiftedFrame 1) = shiftedFrame \<and>
   rd shiftedFrame 19 = Some 6000 \<and>
   rd (applyPhaseCorrection shiftedFrame 1) 19 = Some 7500"
proof -
  have "snd (retrySetup (replicate 224 0) shiftedFrame 1) = shiftedFrame"
    by (simp add: retrySetup_def Let_def outOfPhase_shifted)
  moreover have "rd shiftedFrame 19 = Some 6000" by (simp add: rd_shiftedFrame)
  ultimately show ?thesis
    using shifted_scan outOfPhase_shifted correction_changes_shifted by simp
qed

text \<open>
  The theorem on the scan of the delayed sample frame, which visits offset 0 once and
  offset 1 twice, the second time with correction.
\<close>

theorem scan_progress_witness:
  "successively retryOrAdvance [(0, False), (1, False), (1, True)] \<and>
   sorted_wrt (<) (map fst (filter snd [(0 :: int, False), (1, False), (1, True)])) \<and>
   sorted_wrt (<) (map fst (filter (\<lambda>v. \<not> snd v) [(0 :: int, False), (1, False), (1, True)])) \<and>
   length [(0 :: int, False), (1, False), (1, True)] \<le> 2 * nat \<lceil>242 - real_of_int (FULL_LEN * 2)\<rceil>"
  using scan_progress[of shortOnly rejectingParser defaultOptions 242 "0 :: nat" shiftedFrame]
  unfolding shifted_scan .

section \<open>The magnitude computer\<close>

lemma evens0_nat: "evens 0 (int sz) = map (\<lambda>b. 2 * int b) [0..<(sz + 1) div 2]"
proof (cases "even sz")
  case True
  then obtain n where n: "sz = 2 * n" by (auto elim: evenE)
  show ?thesis using evens0_map[of n] by (simp add: n)
next
  case False
  then obtain n where n: "sz = 2 * n + 1" by (auto elim: oddE)
  have "[0..int sz - 1] = [0..2 * int n - 1] @ [2 * int n]"
    using upto_rec2[of 0 "2 * int n"] by (simp add: n)
  then have "evens 0 (int sz) = evens 0 (2 * int n) @ [2 * int n]"
    by (simp add: evens_def)
  then show ?thesis using evens0_map[of n] by (simp add: n)
qed

lemma rd_fold_pairs:
  "rd (fold (\<lambda>j m. wr m (j div 2) (V j)) (map (\<lambda>b. 2 * int b) [0..<n]) mag) k =
     (if 0 \<le> k \<and> k < int n \<and> k < int (length mag)
      then Some (real (unat (toUint (V (2 * k)) :: 16 word))) else rd (mag :: 16 word list) k)"
proof -
  have "fold (\<lambda>j m. wr m (j div 2) (V j)) (map (\<lambda>b. 2 * int b) [0..<n]) mag
          = fold (\<lambda>i d. wr d (0 + i) (V (2 * i))) (map int [0..<n]) mag"
    by (simp add: fold_map comp_def)
  moreover have "(k \<in> int ` {0..<n}) = (0 \<le> k \<and> k < int n)"
    by (auto simp: image_iff intro: bexI[of _ "nat k"])
  moreover note rd_fold_wr[of 0 "\<lambda>i. V (2 * i)" "map int [0..<n]" mag k]
  ultimately show ?thesis by simp
qed

lemma length_fold_pairs:
  "length (fold (\<lambda>j m. wr m (j div 2) (V j)) js mag) = length mag"
  by (induction js arbitrary: mag) (simp_all add: length_wr)

lemma unsignedStep_eq:
  "unsignedStep lut data =
     (\<lambda>j m. wr m (j div 2) (lookup lut (absolute (nsub (rd data j) (num 127)))
                                        (absolute (nsub (rd data (j + 1)) (num 127)))))"
  by (simp add: unsignedStep_def Let_def fun_eq_iff)

lemma signedLoop_inrange:
  assumes "\<forall>j\<in>set js. 0 \<le> j \<and> j + 1 < int (length data)"
  shows "signedLoop lut data js mag =
           Inr (fold (\<lambda>j m. wr m (j div 2) (lookup lut (absolute (num (sint (data ! nat j))))
                                                      (absolute (num (sint (data ! nat (j + 1))))))) js mag)"
  using assms by (induction js arbitrary: mag) (simp_all add: readInt8_def)

lemma absolute_num: "absolute (num i) = Some (real_of_int \<bar>i\<bar>)"
  by (simp add: absolute_def num_def lt_def nneg_def)

lemma lookup_buildLUT:
  assumes "0 \<le> i" "i \<le> 128" "0 \<le> q" "q \<le> 128"
  shows "lookup buildLUT (Some (real_of_int i)) (Some (real_of_int q)) = magnitude i q"
proof -
  have "nadd (nmul (Some (real_of_int i)) 129) (Some (real_of_int q)) = Some (real_of_int (i * 129 + q))"
    by (simp add: nadd_def nmul_def)
  then show ?thesis
    unfolding lookup_def using rd_buildLUT[OF assms]
    by (simp del: of_int_add of_int_mult)
qed

lemma stored_magnitude:
  assumes "0 \<le> i" "i \<le> 128" "0 \<le> q" "q \<le> 128"
  shows "Some (real (unat (toUint (magnitude i q) :: 16 word))) = magnitude i q"
proof -
  have "real (unat (toUint (magnitude i q) :: 16 word)) = real_of_int (round (sqrt (real_of_int (i * i + q * q)) * 360))"
    unfolding magnitude_def using magnitude_range[OF assms] by (intro toUint_num) simp_all
  then show ?thesis by (simp add: magnitude_def num_def)
qed

lemma byte_ranges:
  "\<bar>int (unat (d :: 8 word)) - 127\<bar> \<le> 128" "\<bar>sint (d :: 8 word)\<bar> \<le> 128"
proof -
  have a: "0 \<le> uint d" by simp
  have b: "uint d < 256" using uint_lt2p[of d] by simp
  have "\<bar>uint d - 127\<bar> \<le> 128" using a b by linarith
  then show "\<bar>int (unat d) - 127\<bar> \<le> 128" by simp
  have "- (2 ^ 7) \<le> sint d" "sint d < 2 ^ 7"
    using sint_ge[of d] sint_lt[of d] by simp_all
  then show "\<bar>sint d\<bar> \<le> 128" by simp
qed

lemma byte_range_uint: "\<bar>uint (d :: 8 word) - 127\<bar> \<le> 128"
  using byte_ranges(1)[of d] by simp

lemma unsigned_value:
  assumes "0 \<le> j" "j + 1 < int (length (data :: 8 word list))"
  shows "lookup buildLUT (absolute (nsub (rd data j) (num 127))) (absolute (nsub (rd data (j + 1)) (num 127)))
         = magnitude \<bar>int (unat (data ! nat j)) - 127\<bar> \<bar>int (unat (data ! nat (j + 1))) - 127\<bar>"
proof -
  have a: "nsub (rd data j) (num 127) = num (int (unat (data ! nat j)) - 127)"
    using assms by (simp add: rd_def nsub_def num_def)
  have b: "nsub (rd data (j + 1)) (num 127) = num (int (unat (data ! nat (j + 1))) - 127)"
    using assms by (simp add: rd_def nsub_def num_def)
  show ?thesis
    unfolding a b absolute_num
    by (rule lookup_buildLUT; (rule byte_ranges abs_ge_zero))
qed

lemma signed_value:
  "lookup buildLUT (absolute (num (sint (d :: 8 word)))) (absolute (num (sint (e :: 8 word))))
         = magnitude \<bar>sint d\<bar> \<bar>sint e\<bar>"
  unfolding absolute_num by (rule lookup_buildLUT; (rule byte_ranges abs_ge_zero))

lemma stored_unsigned:
  "Some (real (unat (toUint (magnitude \<bar>int (unat (d :: 8 word)) - 127\<bar> \<bar>int (unat (e :: 8 word)) - 127\<bar>) :: 16 word)))
     = magnitude \<bar>int (unat d) - 127\<bar> \<bar>int (unat e) - 127\<bar>"
  by (rule stored_magnitude; (rule byte_ranges abs_ge_zero))

lemma stored_signed:
  "Some (real (unat (toUint (magnitude \<bar>sint (d :: 8 word)\<bar> \<bar>sint (e :: 8 word)\<bar>) :: 16 word)))
     = magnitude \<bar>sint d\<bar> \<bar>sint e\<bar>"
  by (rule stored_magnitude; (rule byte_ranges abs_ge_zero))

lemma unsigned_run:
  "computeMagnitudeVector lut data mag sz False =
     Inr (fold (\<lambda>j m. wr m (j div 2) (lookup lut (absolute (nsub (rd data j) (num 127)))
                                               (absolute (nsub (rd data (j + 1)) (num 127)))))
               (map (\<lambda>b. 2 * int b) [0..<(sz + 1) div 2]) mag)"
  by (simp add: computeMagnitudeVector_def unsignedStep_eq evens0_nat)

lemma signed_run:
  assumes "even sz" "sz \<le> length data"
  shows "computeMagnitudeVector lut data mag sz True =
     Inr (fold (\<lambda>j m. wr m (j div 2) (lookup lut (absolute (num (sint (data ! nat j))))
                                               (absolute (num (sint (data ! nat (j + 1)))))))
               (map (\<lambda>b. 2 * int b) [0..<(sz + 1) div 2]) mag)"
proof -
  have "\<forall>j\<in>set (evens 0 (int sz)). 0 \<le> j \<and> j + 1 < int (length data)"
  proof
    fix j assume "j \<in> set (evens 0 (int sz))"
    then have j: "0 \<le> j" "j < int sz" "even j" by (simp_all add: set_evens)
    with assms(1) have "j + 1 < int sz" by presburger
    with j assms(2) show "0 \<le> j \<and> j + 1 < int (length data)" by simp
  qed
  from signedLoop_inrange[OF this] show ?thesis
    by (simp add: computeMagnitudeVector_def evens0_nat)
qed

lemma unsigned_value_out:
  assumes "\<not> j + 1 < int (length (data :: 8 word list))"
  shows "lookup lut (absolute (nsub (rd data j) (num 127))) (absolute (nsub (rd data (j + 1)) (num 127))) = None"
proof -
  from assms have "rd data (j + 1) = None" by (simp add: rd_def)
  then have "absolute (nsub (rd data (j + 1)) (num 127)) = None"
    by (simp add: nsub_def absolute_def lt_def split: option.splits)
  then show ?thesis
    by (simp add: lookup_def nadd_def split: option.splits)
qed

lemma signedLoop_append:
  "signedLoop lut data (xs @ ys) mag =
     (case signedLoop lut data xs mag of Inl e \<Rightarrow> Inl e | Inr m \<Rightarrow> signedLoop lut data ys m)"
  by (induction xs arbitrary: mag) (simp_all split: sum.splits)

lemma signedLoop_fail:
  "\<not> (0 \<le> j \<and> j + 1 < int (length data)) \<Longrightarrow> signedLoop lut data (j # js) mag = Inl (RangeError, mag)"
  by (auto simp: readInt8_def)

lemma signed_run_within:
  assumes "2 * ((sz + 1) div 2) \<le> length data"
  shows "computeMagnitudeVector lut data mag sz True =
     Inr (fold (\<lambda>j m. wr m (j div 2) (lookup lut (absolute (num (sint (data ! nat j))))
                                               (absolute (num (sint (data ! nat (j + 1)))))))
               (map (\<lambda>b. 2 * int b) [0..<(sz + 1) div 2]) mag)"
proof -
  have "\<forall>j\<in>set (map (\<lambda>b. 2 * int b) [0..<(sz + 1) div 2]). 0 \<le> j \<and> j + 1 < int (length data)"
    using assms by auto
  from signedLoop_inrange[OF this] show ?thesis
    by (simp add: computeMagnitudeVector_def evens0_nat)
qed

lemma signed_run_beyond:
  assumes "length data < 2 * ((sz + 1) div 2)"
  shows "computeMagnitudeVector lut data mag sz True =
     Inl (RangeError,
          fold (\<lambda>j m. wr m (j div 2) (lookup lut (absolute (num (sint (data ! nat j))))
                                               (absolute (num (sint (data ! nat (j + 1)))))))
               (map (\<lambda>b. 2 * int b) [0..<length data div 2]) mag)"
proof -
  let ?n = "(sz + 1) div 2" and ?k = "length data div 2"
  from assms have k: "?k < ?n" by presburger
  then have "[0..<?n] = [0..<?k] @ ?k # [Suc ?k..<?n]"
    using upt_add_eq_append[of 0 ?k "?n - ?k"] upt_conv_Cons[of ?k ?n] by simp
  then have s: "map (\<lambda>b. 2 * int b) [0..<?n]
                  = map (\<lambda>b. 2 * int b) [0..<?k] @ 2 * int ?k # map (\<lambda>b. 2 * int b) [Suc ?k..<?n]"
    by simp
  have "\<forall>j\<in>set (map (\<lambda>b. 2 * int b) [0..<?k]). 0 \<le> j \<and> j + 1 < int (length data)"
    by auto
  note a = signedLoop_inrange[OF this]
  have "\<not> (0 \<le> 2 * int ?k \<and> 2 * int ?k + 1 < int (length data))" by presburger
  note b = signedLoop_fail[OF this]
  show ?thesis
    unfolding computeMagnitudeVector_def evens0_nat s signedLoop_append a
    by (simp only: if_True sum.case b)
qed

text \<open>
  Claim C4, as the code has it. \<open>computeMagnitudeVector\<close> checks neither the size nor the
  capacity of the output; it makes \<open>\<lceil>size / 2\<rceil>\<close> passes, and a store beyond the output is
  dropped, so the output keeps its length and its elements from \<open>\<lceil>size / 2\<rceil>\<close> on. With the
  table of the constructor:

  \<^item> The unsigned run never fails. Element \<open>k\<close> of the output, for \<open>k < \<lceil>size / 2\<rceil>\<close>, becomes
    the magnitude of the pair \<open>(data[2k], data[2k + 1])\<close>, the bytes offset by 127, if both
    lie inside the data, and 0 otherwise.

  \<^item> The signed run returns normally if all its pairs lie inside the data
    (\<open>2 \<lceil>size / 2\<rceil> \<le> data.length\<close>), element \<open>k\<close> being the magnitude of the signed bytes.
    Otherwise it stops with the \<open>RangeError\<close> of \<open>readInt8\<close>, having written the magnitudes
    of the \<open>\<lfloor>data.length / 2\<rfloor>\<close> pairs inside the data and nothing else.

  \<^item> For an even size within the data and an output of capacity at least \<open>size / 2\<close> both
    runs write exactly \<open>size / 2\<close> values, one for each pair, and leave the rest of the
    output alone.
\<close>

theorem magnitude_vector:
  "(\<exists>mag'. computeMagnitudeVector lut data mag sz False = Inr mag' \<and> length mag' = length mag \<and>
       (\<forall>k. int ((sz + 1) div 2) \<le> k \<longrightarrow> rd mag' k = rd mag k)) \<and>
   (\<exists>mag'. computeMagnitudeVector buildLUT data mag sz False = Inr mag' \<and>
       (\<forall>k. k < (sz + 1) div 2 \<and> k < length mag \<longrightarrow>
          rd mag' (int k) =
            (if 2 * k + 1 < length data
             then magnitude \<bar>int (unat (data ! (2 * k))) - 127\<bar> \<bar>int (unat (data ! (2 * k + 1))) - 127\<bar>
             else Some 0))) \<and>
   (2 * ((sz + 1) div 2) \<le> length data \<longrightarrow>
      (\<exists>mag'. computeMagnitudeVector buildLUT data mag sz True = Inr mag' \<and> length mag' = length mag \<and>
         (\<forall>k. k < (sz + 1) div 2 \<and> k < length mag \<longrightarrow>
            rd mag' (int k) = magnitude \<bar>sint (data ! (2 * k))\<bar> \<bar>sint (data ! (2 * k + 1))\<bar>) \<and>
         (\<forall>k. int ((sz + 1) div 2) \<le> k \<longrightarrow> rd mag' k = rd mag k))) \<and>
   (length data < 2 * ((sz + 1) div 2) \<longrightarrow>
      (\<exists>mag'. computeMagnitudeVector buildLUT data mag sz True = Inl (RangeError, mag') \<and>
         length mag' = length mag \<and>
         (\<forall>k. k < length data div 2 \<and> k < length mag \<longrightarrow>
            rd mag' (int k) = magnitude \<bar>sint (data ! (2 * k))\<bar> \<bar>sint (data ! (2 * k + 1))\<bar>) \<and>
         (\<forall>k. int (length data div 2) \<le> k \<longrightarrow> rd mag' k = rd mag k))) \<and>
   (even sz \<and> sz \<le> length data \<and> sz div 2 \<le> length mag \<longrightarrow>
      (\<exists>mag'. computeMagnitudeVector buildLUT data mag sz False = Inr mag' \<and> length mag' = length mag \<and>
         (\<forall>k < sz div 2. rd mag' (int k) =
            magnitude \<bar>int (unat (data ! (2 * k))) - 127\<bar> \<bar>int (unat (data ! (2 * k + 1))) - 127\<bar>) \<and>
         (\<forall>k. int (sz div 2) \<le> k \<longrightarrow> rd mag' k = rd mag k)) \<and>
      (\<exists>mag'. computeMagnitudeVector buildLUT data mag sz True = Inr mag' \<and> length mag' = length mag \<and>
         (\<forall>k < sz div 2. rd mag' (int k) = magnitude \<bar>sint (data ! (2 * k))\<bar> \<bar>sint (data ! (2 * k + 1))\<bar>) \<and>
         (\<forall>k. int (sz div 2) \<le> k \<longrightarrow> rd mag' k = rd mag k)))"
proof -
  have i: "nat (2 * int k) = 2 * k" "nat (2 * int k + 1) = 2 * k + 1" for k by simp_all
  have A: "\<exists>mag'. computeMagnitudeVector lut data mag sz False = Inr mag' \<and> length mag' = length mag \<and>
       (\<forall>k. int ((sz + 1) div 2) \<le> k \<longrightarrow> rd mag' k = rd mag k)"
    unfolding unsigned_run by (simp add: length_fold_pairs rd_fold_pairs)
  have B: "\<exists>mag'. computeMagnitudeVector buildLUT data mag sz False = Inr mag' \<and>
       (\<forall>k. k < (sz + 1) div 2 \<and> k < length mag \<longrightarrow>
          rd mag' (int k) =
            (if 2 * k + 1 < length data
             then magnitude \<bar>int (unat (data ! (2 * k))) - 127\<bar> \<bar>int (unat (data ! (2 * k + 1))) - 127\<bar>
             else Some 0))"
    unfolding unsigned_run
  proof (intro exI conjI allI impI, rule refl)
    fix k assume k: "k < (sz + 1) div 2 \<and> k < length mag"
    let ?V = "\<lambda>j. lookup buildLUT (absolute (nsub (rd data j) (num 127)))
                                    (absolute (nsub (rd data (j + 1)) (num 127)))"
    have r: "rd (fold (\<lambda>j m. wr m (j div 2) (?V j)) (map (\<lambda>b. 2 * int b) [0..<(sz + 1) div 2]) mag) (int k)
               = Some (real (unat (toUint (?V (2 * int k)) :: 16 word)))"
      using k by (simp add: rd_fold_pairs)
    show "rd (fold (\<lambda>j m. wr m (j div 2) (?V j)) (map (\<lambda>b. 2 * int b) [0..<(sz + 1) div 2]) mag) (int k) =
            (if 2 * k + 1 < length data
             then magnitude \<bar>int (unat (data ! (2 * k))) - 127\<bar> \<bar>int (unat (data ! (2 * k + 1))) - 127\<bar>
             else Some 0)"
    proof (cases "2 * k + 1 < length data")
      case True
      then have "0 \<le> 2 * int k" "2 * int k + 1 < int (length data)" by simp_all
      from unsigned_value[OF this] have "?V (2 * int k) =
          magnitude \<bar>int (unat (data ! (2 * k))) - 127\<bar> \<bar>int (unat (data ! (2 * k + 1))) - 127\<bar>"
        by (simp only: i)
      with True show ?thesis unfolding r by (simp only: stored_unsigned if_True)
    next
      case False
      then have "\<not> 2 * int k + 1 < int (length data)" by simp
      from unsigned_value_out[OF this] have "?V (2 * int k) = None" .
      with False show ?thesis unfolding r by (simp add: toUint_def)
    qed
  qed
  have C: "\<exists>mag'. computeMagnitudeVector buildLUT data mag sz True = Inr mag' \<and> length mag' = length mag \<and>
         (\<forall>k. k < (sz + 1) div 2 \<and> k < length mag \<longrightarrow>
            rd mag' (int k) = magnitude \<bar>sint (data ! (2 * k))\<bar> \<bar>sint (data ! (2 * k + 1))\<bar>) \<and>
         (\<forall>k. int ((sz + 1) div 2) \<le> k \<longrightarrow> rd mag' k = rd mag k)"
    if w: "2 * ((sz + 1) div 2) \<le> length data"
    unfolding signed_run_within[OF w]
  proof (intro exI conjI allI impI, rule refl)
    show "length (fold (\<lambda>j m. wr m (j div 2) (lookup buildLUT (absolute (num (sint (data ! nat j))))
                                               (absolute (num (sint (data ! nat (j + 1)))))))
               (map (\<lambda>b. 2 * int b) [0..<(sz + 1) div 2]) mag) = length mag"
      by (rule length_fold_pairs)
  next
    fix k assume k: "k < (sz + 1) div 2 \<and> k < length mag"
    then show "rd (fold (\<lambda>j m. wr m (j div 2) (lookup buildLUT (absolute (num (sint (data ! nat j))))
                                               (absolute (num (sint (data ! nat (j + 1)))))))
               (map (\<lambda>b. 2 * int b) [0..<(sz + 1) div 2]) mag) (int k) =
            magnitude \<bar>sint (data ! (2 * k))\<bar> \<bar>sint (data ! (2 * k + 1))\<bar>"
      by (simp only: rd_fold_pairs signed_value i stored_signed) simp
  next
    fix k assume "int ((sz + 1) div 2) \<le> k"
    then show "rd (fold (\<lambda>j m. wr m (j div 2) (lookup buildLUT (absolute (num (sint (data ! nat j))))
                                               (absolute (num (sint (data ! nat (j + 1)))))))
               (map (\<lambda>b. 2 * int b) [0..<(sz + 1) div 2]) mag) k = rd mag k"
      by (simp add: rd_fold_pairs)
  qed
  have D: "\<exists>mag'. computeMagnitudeVector buildLUT data mag sz True = Inl (RangeError, mag') \<and>
         length mag' = length mag \<and>
         (\<forall>k. k < length data div 2 \<and> k < length mag \<longrightarrow>
            rd mag' (int k) = magnitude \<bar>sint (data ! (2 * k))\<bar> \<bar>sint (data ! (2 * k + 1))\<bar>) \<and>
         (\<forall>k. int (length data div 2) \<le> k \<longrightarrow> rd mag' k = rd mag k)"
    if w: "length data < 2 * ((sz + 1) div 2)"
    unfolding signed_run_beyond[OF w]
  proof (intro exI conjI allI impI, rule refl)
    show "length (fold (\<lambda>j m. wr m (j div 2) (lookup buildLUT (absolute (num (sint (data ! nat j))))
                                               (absolute (num (sint (data ! nat (j + 1)))))))
               (map (\<lambda>b. 2 * int b) [0..<length data div 2]) mag) = length mag"
      by (rule length_fold_pairs)
  next
    fix k assume k: "k < length data div 2 \<and> k < length mag"
    then show "rd (fold (\<lambda>j m. wr m (j div 2) (lookup buildLUT (absolute (num (sint (data ! nat j))))
                                               (absolute (num (sint (data ! nat (j + 1)))))))
               (map (\<lambda>b. 2 * int b) [0..<length data div 2]) mag) (int k) =
            magnitude \<bar>sint (data ! (2 * k))\<bar> \<bar>sint (data ! (2 * k + 1))\<bar>"
      by (simp only: rd_fold_pairs signed_value i stored_signed) simp
  next
    fix k assume "int (length data div 2) \<le> k"
    then show "rd (fold (\<lambda>j m. wr m (j div 2) (lookup buildLUT (absolute (num (sint (data ! nat j))))
                                               (absolute (num (sint (data ! nat (j + 1)))))))
               (map (\<lambda>b. 2 * int b) [0..<length data div 2]) mag) k = rd mag k"
      by (simp add: rd_fold_pairs)
  qed
  have E: "(\<exists>mag'. computeMagnitudeVector buildLUT data mag sz False = Inr mag' \<and> length mag' = length mag \<and>
         (\<forall>k < sz div 2. rd mag' (int k) =
            magnitude \<bar>int (unat (data ! (2 * k))) - 127\<bar> \<bar>int (unat (data ! (2 * k + 1))) - 127\<bar>) \<and>
         (\<forall>k. int (sz div 2) \<le> k \<longrightarrow> rd mag' k = rd mag k)) \<and>
      (\<exists>mag'. computeMagnitudeVector buildLUT data mag sz True = Inr mag' \<and> length mag' = length mag \<and>
         (\<forall>k < sz div 2. rd mag' (int k) = magnitude \<bar>sint (data ! (2 * k))\<bar> \<bar>sint (data ! (2 * k + 1))\<bar>) \<and>
         (\<forall>k. int (sz div 2) \<le> k \<longrightarrow> rd mag' k = rd mag k))"
    if h: "even sz \<and> sz \<le> length data \<and> sz div 2 \<le> length mag"
  proof
    from h have n: "(sz + 1) div 2 = sz div 2" by presburger
    have r: "0 \<le> 2 * int k \<and> 2 * int k + 1 < int (length data)" if "k < sz div 2" for k
      using that h by presburger
    show "\<exists>mag'. computeMagnitudeVector buildLUT data mag sz False = Inr mag' \<and> length mag' = length mag \<and>
         (\<forall>k < sz div 2. rd mag' (int k) =
            magnitude \<bar>int (unat (data ! (2 * k))) - 127\<bar> \<bar>int (unat (data ! (2 * k + 1))) - 127\<bar>) \<and>
         (\<forall>k. int (sz div 2) \<le> k \<longrightarrow> rd mag' k = rd mag k)"
      unfolding unsigned_run n
    proof (intro exI conjI allI impI, rule refl)
      show "length (fold (\<lambda>j m. wr m (j div 2) (lookup buildLUT (absolute (nsub (rd data j) (num 127)))
                                               (absolute (nsub (rd data (j + 1)) (num 127)))))
               (map (\<lambda>b. 2 * int b) [0..<sz div 2]) mag) = length mag"
        by (rule length_fold_pairs)
    next
      fix k assume k: "k < sz div 2"
      with h have "int k < int (length mag)" by simp
      with k show "rd (fold (\<lambda>j m. wr m (j div 2) (lookup buildLUT (absolute (nsub (rd data j) (num 127)))
                                               (absolute (nsub (rd data (j + 1)) (num 127)))))
               (map (\<lambda>b. 2 * int b) [0..<sz div 2]) mag) (int k) =
            magnitude \<bar>int (unat (data ! (2 * k))) - 127\<bar> \<bar>int (unat (data ! (2 * k + 1))) - 127\<bar>"
        using r[OF k]
        by (simp only: rd_fold_pairs unsigned_value i stored_unsigned) simp
    next
      fix k assume "int (sz div 2) \<le> k"
      then show "rd (fold (\<lambda>j m. wr m (j div 2) (lookup buildLUT (absolute (nsub (rd data j) (num 127)))
                                               (absolute (nsub (rd data (j + 1)) (num 127)))))
               (map (\<lambda>b. 2 * int b) [0..<sz div 2]) mag) k = rd mag k"
        by (simp add: rd_fold_pairs)
    qed
    from h have e: "even sz" "sz \<le> length data" by simp_all
    show "\<exists>mag'. computeMagnitudeVector buildLUT data mag sz True = Inr mag' \<and> length mag' = length mag \<and>
         (\<forall>k < sz div 2. rd mag' (int k) = magnitude \<bar>sint (data ! (2 * k))\<bar> \<bar>sint (data ! (2 * k + 1))\<bar>) \<and>
         (\<forall>k. int (sz div 2) \<le> k \<longrightarrow> rd mag' k = rd mag k)"
      unfolding signed_run[OF e] n
    proof (intro exI conjI allI impI, rule refl)
      show "length (fold (\<lambda>j m. wr m (j div 2) (lookup buildLUT (absolute (num (sint (data ! nat j))))
                                               (absolute (num (sint (data ! nat (j + 1)))))))
               (map (\<lambda>b. 2 * int b) [0..<sz div 2]) mag) = length mag"
        by (rule length_fold_pairs)
    next
      fix k assume k: "k < sz div 2"
      with h have "int k < int (length mag)" by simp
      with k show "rd (fold (\<lambda>j m. wr m (j div 2) (lookup buildLUT (absolute (num (sint (data ! nat j))))
                                               (absolute (num (sint (data ! nat (j + 1)))))))
               (map (\<lambda>b. 2 * int b) [0..<sz div 2]) mag) (int k) =
            magnitude \<bar>sint (data ! (2 * k))\<bar> \<bar>sint (data ! (2 * k + 1))\<bar>"
        by (simp only: rd_fold_pairs signed_value i stored_signed) simp
    next
      fix k assume "int (sz div 2) \<le> k"
      then show "rd (fold (\<lambda>j m. wr m (j div 2) (lookup buildLUT (absolute (num (sint (data ! nat j))))
                                               (absolute (num (sint (data ! nat (j + 1)))))))
               (map (\<lambda>b. 2 * int b) [0..<sz div 2]) mag) k = rd mag k"
        by (simp add: rd_fold_pairs)
    qed
  qed
  from A B C D E show ?thesis by blast
qed

lemma magnitude_axis: "0 \<le> i \<Longrightarrow> magnitude i 0 = num (i * 360)"
proof -
  assume "0 \<le> i"
  then have "sqrt (real_of_int (i * i + 0 * 0)) * 360 = real_of_int (i * 360)"
    by (simp add: real_sqrt_mult)
  then show ?thesis unfolding magnitude_def by (simp only: round_of_int)
qed

lemma magnitude_axis2: "0 \<le> q \<Longrightarrow> magnitude 0 q = num (q * 360)"
proof -
  assume "0 \<le> q"
  then have "sqrt (real_of_int (0 * 0 + q * q)) * 360 = real_of_int (q * 360)"
    by (simp add: real_sqrt_mult)
  then show ?thesis unfolding magnitude_def by (simp only: round_of_int)
qed

lemma toUint_small: "(toUint (num 46080) :: 16 word) = 46080" "(toUint (num 45720) :: 16 word) = 45720"
  "(toUint None :: 16 word) = 0"
  by (simp_all add: toUint_def num_def)

lemma pairs2: "map (\<lambda>b. 2 * int b) [0..<2] = [0, 2]"
  by (simp add: upt_rec)

text \<open>
  The claim C4 as stated fails. With the odd size 3 on three bytes the unsigned run returns
  normally, having paired the last byte with the undefined element behind the data and
  stored 0 for it; with an output of one element for four bytes it returns normally with
  the second magnitude dropped. The signed run with the odd size 3 on three bytes stops
  with the \<open>RangeError\<close> of \<open>readInt8\<close>, after it has written the magnitude of the first pair.
\<close>

theorem magnitude_vector_counterexample:
  "computeMagnitudeVector buildLUT [255, 127, 255] [7, 7] 3 False = Inr [46080, 0] \<and>
   computeMagnitudeVector buildLUT [255, 127, 255, 127] [7] 4 False = Inr [46080] \<and>
   computeMagnitudeVector buildLUT [127, 0, 127] [7, 7] 3 True = Inl (RangeError, [45720, 7])"
proof -
  have v0: "lookup buildLUT (absolute (nsub (rd [255, 127, 255 :: 8 word] 0) (num 127)))
              (absolute (nsub (rd [255, 127, 255 :: 8 word] 1) (num 127))) = num 46080"
    using unsigned_value[of 0 "[255, 127, 255]"] by (simp add: magnitude_axis)
  have v2: "lookup buildLUT (absolute (nsub (rd [255, 127, 255 :: 8 word] 2) (num 127)))
              (absolute (nsub (rd [255, 127, 255 :: 8 word] 3) (num 127))) = None"
    by (simp add: rd_def nsub_def absolute_def lt_def nneg_def lookup_def nadd_def num_def nmul_def)
  have a: "computeMagnitudeVector buildLUT [255, 127, 255] [7, 7] 3 False = Inr [46080, 0]"
    unfolding unsigned_run
    by (simp add: pairs2 v0 v2 wr_def toUint_small)
  have w0: "lookup buildLUT (absolute (nsub (rd [255, 127, 255, 127 :: 8 word] 0) (num 127)))
              (absolute (nsub (rd [255, 127, 255, 127 :: 8 word] 1) (num 127))) = num 46080"
    using unsigned_value[of 0 "[255, 127, 255, 127]"] by (simp add: magnitude_axis)
  have b: "computeMagnitudeVector buildLUT [255, 127, 255, 127] [7] 4 False = Inr [46080]"
    unfolding unsigned_run
    by (simp add: pairs2 w0 wr_def toUint_small)
  have s0: "lookup buildLUT (absolute (num (sint (127 :: 8 word)))) (absolute (num (sint (0 :: 8 word)))) = num 45720"
    unfolding signed_value by (simp add: magnitude_axis)
  have e: "evens 0 (int 3) = [0, 2]" using evens0_nat[of 3] by (simp add: pairs2)
  have c: "computeMagnitudeVector buildLUT [127, 0, 127] [7, 7] 3 True = Inl (RangeError, [45720, 7])"
    unfolding computeMagnitudeVector_def e
    using s0 by (simp add: readInt8_def wr_def toUint_small)
  from a b c show ?thesis by simp
qed

text \<open>
  The theorem on an output of two elements, both 7: for the two bytes 127 and 0, element 0
  becomes \<open>127 * 360\<close> and element 1 stays; for the odd size 3 within four bytes both runs
  pair the third byte with the fourth; for the odd size 3 on three bytes the unsigned run
  stores 0 for the last pair and the signed run stops after the first.
\<close>

theorem magnitude_vector_witness:
  "(\<exists>mag'. computeMagnitudeVector buildLUT [127, 0] [7, 7] 2 False = Inr mag' \<and> length mag' = 2 \<and>
      rd mag' 0 = Some 45720 \<and> rd mag' 1 = Some 7) \<and>
   (\<exists>mag'. computeMagnitudeVector buildLUT [127, 0] [7, 7] 2 True = Inr mag' \<and> length mag' = 2 \<and>
      rd mag' 0 = Some 45720 \<and> rd mag' 1 = Some 7) \<and>
   (\<exists>mag'. computeMagnitudeVector buildLUT [128, 127, 127, 128] [7, 7] 3 False = Inr mag' \<and>
      rd mag' 0 = Some 360 \<and> rd mag' 1 = Some 360) \<and>
   (\<exists>mag'. computeMagnitudeVector buildLUT [255, 127, 255] [7, 7] 3 False = Inr mag' \<and>
      rd mag' 0 = Some 46080 \<and> rd mag' 1 = Some 0) \<and>
   (\<exists>mag'. computeMagnitudeVector buildLUT [1, 0, 0, 1] [7, 7] 3 True = Inr mag' \<and>
      rd mag' 0 = Some 360 \<and> rd mag' 1 = Some 360) \<and>
   (\<exists>mag'. computeMagnitudeVector buildLUT [127, 0, 127] [7, 7] 3 True = Inl (RangeError, mag') \<and>
      rd mag' 0 = Some 45720 \<and> rd mag' 1 = Some 7)"
proof -
  have r7: "rd [7, 7 :: 16 word] 1 = Some 7" by (simp add: rd_def)
  have h: "even (2::nat) \<and> 2 \<le> length [127, 0 :: 8 word] \<and> 2 div 2 \<le> length [7, 7 :: 16 word]"
    by simp
  note t = magnitude_vector[of buildLUT "[127, 0]" "[7, 7]" 2,
      THEN conjunct2, THEN conjunct2, THEN conjunct2, THEN conjunct2, rule_format, OF h]
  from t[THEN conjunct1] obtain m where m:
    "computeMagnitudeVector buildLUT [127, 0] [7, 7] 2 False = Inr m" "length m = length [7, 7 :: 16 word]"
    "\<forall>k < 2 div 2. rd m (int k) =
        magnitude \<bar>int (unat ([127, 0 :: 8 word] ! (2 * k))) - 127\<bar> \<bar>int (unat ([127, 0 :: 8 word] ! (2 * k + 1))) - 127\<bar>"
    "\<forall>k. int (2 div 2) \<le> k \<longrightarrow> rd m k = rd [7, 7 :: 16 word] k"
    by blast
  from m(3) have m0: "rd m 0 = Some 45720" by (simp add: magnitude_axis2 num_def)
  from m(4) have "rd m 1 = rd [7, 7 :: 16 word] 1" by simp
  then have m1: "rd m 1 = Some 7" by (simp only: r7)
  from t[THEN conjunct2] obtain n where n:
    "computeMagnitudeVector buildLUT [127, 0] [7, 7] 2 True = Inr n" "length n = length [7, 7 :: 16 word]"
    "\<forall>k < 2 div 2. rd n (int k) =
        magnitude \<bar>sint ([127, 0 :: 8 word] ! (2 * k))\<bar> \<bar>sint ([127, 0 :: 8 word] ! (2 * k + 1))\<bar>"
    "\<forall>k. int (2 div 2) \<le> k \<longrightarrow> rd n k = rd [7, 7 :: 16 word] k"
    by blast
  from n(3) have n0: "rd n 0 = Some 45720" by (simp add: magnitude_axis num_def)
  from n(4) have "rd n 1 = rd [7, 7 :: 16 word] 1" by simp
  then have n1: "rd n 1 = Some 7" by (simp only: r7)
  from m(1,2) m0 m1 have P1: "\<exists>mag'. computeMagnitudeVector buildLUT [127, 0] [7, 7] 2 False = Inr mag' \<and>
      length mag' = 2 \<and> rd mag' 0 = Some 45720 \<and> rd mag' 1 = Some 7" by simp
  from n(1,2) n0 n1 have P2: "\<exists>mag'. computeMagnitudeVector buildLUT [127, 0] [7, 7] 2 True = Inr mag' \<and>
      length mag' = 2 \<and> rd mag' 0 = Some 45720 \<and> rd mag' 1 = Some 7" by simp
  from magnitude_vector[of buildLUT "[128, 127, 127, 128]" "[7, 7]" 3, THEN conjunct2, THEN conjunct1]
  obtain u where u: "computeMagnitudeVector buildLUT [128, 127, 127, 128] [7, 7] 3 False = Inr u"
    "\<forall>k. k < (3 + 1) div 2 \<and> k < length [7, 7 :: 16 word] \<longrightarrow>
          rd u (int k) =
            (if 2 * k + 1 < length [128, 127, 127, 128 :: 8 word]
             then magnitude \<bar>int (unat ([128, 127, 127, 128 :: 8 word] ! (2 * k))) - 127\<bar>
                    \<bar>int (unat ([128, 127, 127, 128 :: 8 word] ! (2 * k + 1))) - 127\<bar>
             else Some 0)"
    by blast
  from u(2)[rule_format, of 0] have u0: "rd u 0 = Some 360" by (simp add: magnitude_axis num_def)
  from u(2)[rule_format, of 1] have u1: "rd u 1 = Some 360" by (simp add: magnitude_axis2 num_def)
  from u(1) u0 u1 have P3: "\<exists>mag'. computeMagnitudeVector buildLUT [128, 127, 127, 128] [7, 7] 3 False = Inr mag' \<and>
      rd mag' 0 = Some 360 \<and> rd mag' 1 = Some 360" by simp
  from magnitude_vector[of buildLUT "[255, 127, 255]" "[7, 7]" 3, THEN conjunct2, THEN conjunct1]
  obtain v where v: "computeMagnitudeVector buildLUT [255, 127, 255] [7, 7] 3 False = Inr v"
    "\<forall>k. k < (3 + 1) div 2 \<and> k < length [7, 7 :: 16 word] \<longrightarrow>
          rd v (int k) =
            (if 2 * k + 1 < length [255, 127, 255 :: 8 word]
             then magnitude \<bar>int (unat ([255, 127, 255 :: 8 word] ! (2 * k))) - 127\<bar>
                    \<bar>int (unat ([255, 127, 255 :: 8 word] ! (2 * k + 1))) - 127\<bar>
             else Some 0)"
    by blast
  from v(2)[rule_format, of 0] have v0: "rd v 0 = Some 46080" by (simp add: magnitude_axis num_def)
  from v(2)[rule_format, of 1] have v1: "rd v 1 = Some 0" by simp
  from v(1) v0 v1 have P4: "\<exists>mag'. computeMagnitudeVector buildLUT [255, 127, 255] [7, 7] 3 False = Inr mag' \<and>
      rd mag' 0 = Some 46080 \<and> rd mag' 1 = Some 0" by simp
  have hw: "2 * ((3 + 1) div 2) \<le> length [1, 0, 0, 1 :: 8 word]" by simp
  from magnitude_vector[of buildLUT "[1, 0, 0, 1]" "[7, 7]" 3,
      THEN conjunct2, THEN conjunct2, THEN conjunct1, rule_format, OF hw]
  obtain w where w: "computeMagnitudeVector buildLUT [1, 0, 0, 1] [7, 7] 3 True = Inr w"
    "\<forall>k. k < (3 + 1) div 2 \<and> k < length [7, 7 :: 16 word] \<longrightarrow>
            rd w (int k) = magnitude \<bar>sint ([1, 0, 0, 1 :: 8 word] ! (2 * k))\<bar> \<bar>sint ([1, 0, 0, 1 :: 8 word] ! (2 * k + 1))\<bar>"
    by blast
  from w(2)[rule_format, of 0] have w0: "rd w 0 = Some 360" by (simp add: magnitude_axis num_def)
  from w(2)[rule_format, of 1] have w1: "rd w 1 = Some 360" by (simp add: magnitude_axis2 num_def)
  from w(1) w0 w1 have P5: "\<exists>mag'. computeMagnitudeVector buildLUT [1, 0, 0, 1] [7, 7] 3 True = Inr mag' \<and>
      rd mag' 0 = Some 360 \<and> rd mag' 1 = Some 360" by simp
  have hx: "length [127, 0, 127 :: 8 word] < 2 * ((3 + 1) div 2)" by simp
  from magnitude_vector[of buildLUT "[127, 0, 127]" "[7, 7]" 3,
      THEN conjunct2, THEN conjunct2, THEN conjunct2, THEN conjunct1, rule_format, OF hx]
  obtain x where x: "computeMagnitudeVector buildLUT [127, 0, 127] [7, 7] 3 True = Inl (RangeError, x)"
    "\<forall>k. k < length [127, 0, 127 :: 8 word] div 2 \<and> k < length [7, 7 :: 16 word] \<longrightarrow>
            rd x (int k) = magnitude \<bar>sint ([127, 0, 127 :: 8 word] ! (2 * k))\<bar> \<bar>sint ([127, 0, 127 :: 8 word] ! (2 * k + 1))\<bar>"
    "\<forall>k. int (length [127, 0, 127 :: 8 word] div 2) \<le> k \<longrightarrow> rd x k = rd [7, 7 :: 16 word] k"
    by blast
  from x(2)[rule_format, of 0] have x0: "rd x 0 = Some 45720" by (simp add: magnitude_axis num_def)
  from x(3) have "rd x 1 = rd [7, 7 :: 16 word] 1" by simp
  then have x1: "rd x 1 = Some 7" by (simp only: r7)
  from x(1) x0 x1 have P6: "\<exists>mag'. computeMagnitudeVector buildLUT [127, 0, 127] [7, 7] 3 True = Inl (RangeError, mag') \<and>
      rd mag' 0 = Some 45720 \<and> rd mag' 1 = Some 7" by simp
  from P1 P2 P3 P4 P5 P6 show ?thesis by (intro conjI)
qed

section \<open>The magnitude array of the options\<close>

lemma handOver_magOpt: "handOver parse (opts\<lparr>magOpt := m\<rparr>) j L e s = handOver parse opts j L e s"
  by (simp add: handOver_eq)

lemma detectStep_magOpt: "detectStep msgLen parse (opts\<lparr>magOpt := m\<rparr>) j s = detectStep msgLen parse opts j s"
  by (simp add: detectStep_def handOver_magOpt case_prod_beta Let_def)

lemma detectLoop_magOpt:
  "detectLoop msgLen parse (opts\<lparr>magOpt := m\<rparr>) maglen j s = detectLoop msgLen parse opts maglen j s"
proof (induction msgLen parse opts maglen j s rule: detectLoop.induct)
  case (1 msgLen parse opts maglen j s)
  show ?case
  proof (cases "real_of_int j < maglen - real_of_int (FULL_LEN * 2)")
    case True
    obtain j' s' where st: "detectStep msgLen parse opts j s = (j', s')"
      by (cases "detectStep msgLen parse opts j s")
    from "1.IH"[OF True st[symmetric]] show ?thesis
      by (subst (1 2) detectLoop.simps) (simp add: True st detectStep_magOpt)
  next
    case False
    then show ?thesis by (subst (1 2) detectLoop.simps) simp
  qed
qed

lemma detectMessage_magOpt:
  "detectMessage msgLen parse (opts\<lparr>magOpt := m\<rparr>) dec mag maglen = detectMessage msgLen parse opts dec mag maglen"
  by (simp add: detectMessage_def detectLoop_magOpt)

lemma length_detectStep:
  "length (st_mag (snd (detectStep msgLen parse opts j s))) = length (st_mag s)"
proof (cases "st_useCorrection s \<or> \<not> preambleRejects (st_mag s) j")
  case True
  then show ?thesis by (simp add: detectStep_arrays length_candidate)
next
  case False
  then show ?thesis by (simp add: detectStep_def)
qed

lemma length_detectLoop:
  "length (st_mag (detectLoop msgLen parse opts maglen j s)) = length (st_mag s)"
proof (induction msgLen parse opts maglen j s rule: detectLoop.induct)
  case (1 msgLen parse opts maglen j s)
  show ?case
  proof (cases "real_of_int j < maglen - real_of_int (FULL_LEN * 2)")
    case True
    obtain j' s' where st: "detectStep msgLen parse opts j s = (j', s')"
      by (cases "detectStep msgLen parse opts j s")
    have "length (st_mag s') = length (st_mag s)"
      using length_detectStep[of msgLen parse opts j s] by (simp add: st)
    with "1.IH"[OF True st[symmetric]] show ?thesis
      by (subst detectLoop.simps) (simp add: True st)
  next
    case False
    then show ?thesis by (subst detectLoop.simps) simp
  qed
qed

lemma process_eq:
  "process msgLen parse this data sz =
     Inr (this\<lparr>decoder := fst (snd (detectMessage msgLen parse (options this) (decoder this)
                     (fold (unsignedStep (MAG_LUT this) data) (evens 0 (int sz))
                        (case mag_priv this of None \<Rightarrow> replicate (sz div 2) 0 | Some a \<Rightarrow> a)) (real sz / 2))),
               mag_priv := Some (fst (detectMessage msgLen parse (options this) (decoder this)
                     (fold (unsignedStep (MAG_LUT this) data) (evens 0 (int sz))
                        (case mag_priv this of None \<Rightarrow> replicate (sz div 2) 0 | Some a \<Rightarrow> a)) (real sz / 2)))\<rparr>,
          snd (snd (detectMessage msgLen parse (options this) (decoder this)
                     (fold (unsignedStep (MAG_LUT this) data) (evens 0 (int sz))
                        (case mag_priv this of None \<Rightarrow> replicate (sz div 2) 0 | Some a \<Rightarrow> a)) (real sz / 2))))"
proof -
  have "nat \<lfloor>real sz / 2\<rfloor> = sz div 2"
    using floor_divide_of_nat_eq[of sz 2, where 'a = real] by simp
  then show ?thesis
    by (cases "mag_priv this") (simp_all add: process_def computeMagnitudeVector_def Let_def case_prod_beta)
qed

lemma process_magOpt:
  "process msgLen parse (this\<lparr>options := (options this)\<lparr>magOpt := m\<rparr>\<rparr>) data sz =
     (case process msgLen parse this data sz of
        Inl (e, d) \<Rightarrow> Inl (e, d\<lparr>options := (options d)\<lparr>magOpt := m\<rparr>\<rparr>)
      | Inr (d, out) \<Rightarrow> Inr (d\<lparr>options := (options d)\<lparr>magOpt := m\<rparr>\<rparr>, out))"
  unfolding process_eq by (simp add: detectMessage_magOpt)

lemma run_magOpt:
  "run msgLen parse (this\<lparr>options := (options this)\<lparr>magOpt := m\<rparr>\<rparr>) calls = run msgLen parse this calls"
proof (induction calls arbitrary: this)
  case Nil
  then show ?case by simp
next
  case (Cons c calls)
  obtain data sz where c: "c = (data, sz)" by (cases c)
  obtain d out where p: "process msgLen parse this data sz = Inr (d, out)"
    using process_eq[of msgLen parse this data sz] by blast
  show ?case
    unfolding c by (simp add: process_magOpt p Cons.IH)
qed

lemma process_private:
  "\<exists>this' out. process msgLen parse this data sz = Inr (this', out) \<and>
     options this' = options this \<and> MAG_LUT this' = MAG_LUT this \<and>
     (\<exists>a. mag_priv this' = Some a \<and>
          length a = (case mag_priv this of None \<Rightarrow> sz div 2 | Some b \<Rightarrow> length b))"
proof -
  let ?m = "case mag_priv this of None \<Rightarrow> replicate (sz div 2) 0 | Some a \<Rightarrow> a"
  have "length (fst (detectMessage msgLen parse (options this) (decoder this)
                  (fold (unsignedStep (MAG_LUT this) data) (evens 0 (int sz)) ?m) (real sz / 2)))
        = length ?m"
    by (simp add: detectMessage_def Let_def length_detectLoop initScan_fields unsignedStep_eq length_fold_pairs)
  moreover have "length ?m = (case mag_priv this of None \<Rightarrow> sz div 2 | Some b \<Rightarrow> length b)"
    by (cases "mag_priv this") simp_all
  ultimately show ?thesis
    unfolding process_eq by simp
qed

lemma constructor_magOpt:
  assumes "\<forall>r. newDecoder (r\<lparr>magOpt := m\<rparr>) = newDecoder r"
  shows "constructor newDecoder (Some (req\<lparr>magOpt := m\<rparr>)) =
         (constructor newDecoder (Some req))\<lparr>options := (options (constructor newDecoder (Some req)))\<lparr>magOpt := m\<rparr>\<rparr>"
proof -
  let ?o = "\<lparr>aggressive = Some (aggressive req \<noteq> Some False), checkCrc = orElse (checkCrc req) True,
             crcOnly = orElse (crcOnly req) False, magOpt = magOpt req\<rparr>"
  have "newDecoder (?o\<lparr>magOpt := m\<rparr>) = newDecoder ?o" using assms by blast
  then show ?thesis by (simp add: constructor_def Let_def)
qed

text \<open>
  Claim C9. Two demodulators that differ in the \<open>mag\<close> option only give the same messages
  to the callback over any sequence of calls of \<open>process\<close>. Each call returns normally,
  neither reads nor writes the options, and leaves a private array behind: on the first
  call, when there is none (the constructor sets none up), a new one of \<open>\<lfloor>size / 2\<rfloor>\<close>
  elements, afterwards the one that was there, with its length. The same holds for two
  demodulators constructed from option objects that differ in \<open>mag\<close> only, if the decoder
  constructor, which is handed the options, does not depend on \<open>mag\<close>.
\<close>

theorem mag_option_unused:
  "run msgLen parse (this\<lparr>options := (options this)\<lparr>magOpt := m\<rparr>\<rparr>) calls = run msgLen parse this calls \<and>
   (\<exists>this' out. process msgLen parse this data sz = Inr (this', out) \<and>
      process msgLen parse (this\<lparr>options := (options this)\<lparr>magOpt := m\<rparr>\<rparr>) data sz
        = Inr (this'\<lparr>options := (options this')\<lparr>magOpt := m\<rparr>\<rparr>, out) \<and>
      options this' = options this \<and>
      (\<exists>a. mag_priv this' = Some a \<and>
           length a = (case mag_priv this of None \<Rightarrow> sz div 2 | Some b \<Rightarrow> length b))) \<and>
   mag_priv (constructor newDecoder opts) = None \<and>
   ((\<forall>r. newDecoder (r\<lparr>magOpt := m\<rparr>) = newDecoder r) \<longrightarrow>
      run msgLen parse (constructor newDecoder (Some (req\<lparr>magOpt := m\<rparr>))) calls
        = run msgLen parse (constructor newDecoder (Some req)) calls)"
proof (intro conjI impI)
  show "run msgLen parse (this\<lparr>options := (options this)\<lparr>magOpt := m\<rparr>\<rparr>) calls = run msgLen parse this calls"
    by (rule run_magOpt)
  from process_private[of msgLen parse this data sz]
  obtain this' out where p: "process msgLen parse this data sz = Inr (this', out)"
    "options this' = options this"
    "\<exists>a. mag_priv this' = Some a \<and> length a = (case mag_priv this of None \<Rightarrow> sz div 2 | Some b \<Rightarrow> length b)"
    by blast
  have "process msgLen parse (this\<lparr>options := (options this)\<lparr>magOpt := m\<rparr>\<rparr>) data sz
        = Inr (this'\<lparr>options := (options this')\<lparr>magOpt := m\<rparr>\<rparr>, out)"
    by (simp add: process_magOpt p(1))
  with p show "\<exists>this' out. process msgLen parse this data sz = Inr (this', out) \<and>
      process msgLen parse (this\<lparr>options := (options this)\<lparr>magOpt := m\<rparr>\<rparr>) data sz
        = Inr (this'\<lparr>options := (options this')\<lparr>magOpt := m\<rparr>\<rparr>, out) \<and>
      options this' = options this \<and>
      (\<exists>a. mag_priv this' = Some a \<and>
           length a = (case mag_priv this of None \<Rightarrow> sz div 2 | Some b \<Rightarrow> length b))"
    by blast
  show "mag_priv (constructor newDecoder opts) = None" by (rule constructor_options)
next
  assume "\<forall>r. newDecoder (r\<lparr>magOpt := m\<rparr>) = newDecoder r"
  from constructor_magOpt[OF this, of req]
  show "run msgLen parse (constructor newDecoder (Some (req\<lparr>magOpt := m\<rparr>))) calls
        = run msgLen parse (constructor newDecoder (Some req)) calls"
    by (simp only: run_magOpt)
qed

lemma run_short:
  assumes "sz \<le> 480"
  shows "run msgLen parse this [(data, sz)] = [[]]"
proof -
  have "\<not> real_of_int 0 < real sz / 2 - real_of_int (FULL_LEN * 2)"
    using assms by (simp add: FULL_LEN_def PREAMBLE_US_def LONG_MSG_BITS_def)
  then have "snd (snd (detectMessage msgLen parse opts dec mag (real sz / 2))) = []" for opts dec mag
    by (simp add: detectMessage_def Let_def detectLoop_unfold[of _ _ _ _ 0] initScan_fields)
  then show ?thesis
    by (simp add: process_eq)
qed

text \<open>
  The theorem for a call with two bytes on demodulators constructed with and without an
  array of three elements as \<open>mag\<close>, the decoder constructor looking at \<open>checkCrc\<close> only:
  both give the callback nothing.
\<close>

theorem mag_option_unused_witness:
  "(\<forall>r :: DemodulatorOptions. plainDecoder (r\<lparr>magOpt := Some [7, 7, 7]\<rparr>) = plainDecoder r) \<and>
   run shortOnly rejectingParser
     (constructor plainDecoder (Some (uncheckedRequest\<lparr>magOpt := Some [7, 7, 7]\<rparr>))) [([127, 127], 2)] = [[]] \<and>
   run shortOnly rejectingParser (constructor plainDecoder (Some uncheckedRequest)) [([127, 127], 2)] = [[]]"
proof -
  have h: "\<forall>r :: DemodulatorOptions. plainDecoder (r\<lparr>magOpt := Some [7, 7, 7]\<rparr>) = plainDecoder r"
    by (simp add: plainDecoder_def)
  have s: "run shortOnly rejectingParser (constructor plainDecoder (Some uncheckedRequest)) [([127, 127], 2)] = [[]]"
    by (rule run_short) simp
  from mag_option_unused[where msgLen = shortOnly and parse = rejectingParser
      and this = "constructor plainDecoder None" and m = "Some [7, 7, 7]"
      and calls = "[([127, 127], 2)]" and data = "[127, 127]" and sz = 2
      and newDecoder = plainDecoder and opts = None and req = uncheckedRequest]
  have "run shortOnly rejectingParser
     (constructor plainDecoder (Some (uncheckedRequest\<lparr>magOpt := Some [7, 7, 7]\<rparr>))) [([127, 127], 2)]
     = run shortOnly rejectingParser (constructor plainDecoder (Some uncheckedRequest)) [([127, 127], 2)]"
    using h by blast
  with h s show ?thesis by simp
qed

section \<open>Phase correction stores 16-bit values\<close>

lemma phaseSteps_at:
  assumes "\<forall>i\<in>set pre. i < j \<and> even i" and "\<forall>i\<in>set post. j < i" and "even j"
  shows "rd (fold (phaseStep offset) (pre @ j # post) mag) (offset + j)
           = rd (fold (phaseStep offset) pre mag) (offset + j)"
    and "rd (fold (phaseStep offset) (pre @ j # post) mag) (offset + j + 2)
           = rd (phaseStep offset j (fold (phaseStep offset) pre mag)) (offset + j + 2)"
    and "rd (fold (phaseStep offset) pre mag) (offset + j + 1) = rd mag (offset + j + 1)"
    and "rd (fold (phaseStep offset) pre mag) (offset + j + 2) = rd mag (offset + j + 2)"
proof -
  let ?P = "fold (phaseStep offset) pre mag"
  have f: "fold (phaseStep offset) (pre @ j # post) mag
             = fold (phaseStep offset) post (phaseStep offset j ?P)"
    by simp
  have "rd (fold (phaseStep offset) post (phaseStep offset j ?P)) (offset + j)
          = rd (phaseStep offset j ?P) (offset + j)"
    by (rule rd_phaseSteps_other) (insert assms(2), auto)
  also have "\<dots> = rd ?P (offset + j)"
    by (rule rd_phaseStep_other) simp
  finally show "rd (fold (phaseStep offset) (pre @ j # post) mag) (offset + j) = rd ?P (offset + j)"
    unfolding f .
  have "rd (fold (phaseStep offset) post (phaseStep offset j ?P)) (offset + j + 2)
          = rd (phaseStep offset j ?P) (offset + j + 2)"
    by (rule rd_phaseSteps_other) (insert assms(2), auto)
  then show "rd (fold (phaseStep offset) (pre @ j # post) mag) (offset + j + 2)
          = rd (phaseStep offset j ?P) (offset + j + 2)"
    unfolding f .
  show "rd ?P (offset + j + 1) = rd mag (offset + j + 1)"
  proof (rule rd_phaseSteps_other, rule ballI)
    fix i assume "i \<in> set pre"
    with assms(1) have "even i" by simp
    with assms(3) show "offset + j + 1 \<noteq> offset + i + 2" by presburger
  qed
  show "rd ?P (offset + j + 2) = rd mag (offset + j + 2)"
    by (rule rd_phaseSteps_other) (insert assms(1), auto)
qed

lemma evens_split:
  assumes "j \<in> set (evens 16 222)"
  shows "evens 16 222 = evens 16 j @ j # filter (\<lambda>i. even (i - 16)) [j + 1..221]"
proof -
  from assms have j: "16 \<le> j" "j < 222" "even (j - 16)" by (simp_all add: set_evens)
  then have "[16..221] = [16..j - 1] @ j # [j + 1..221]"
    by (intro upto_split3) simp_all
  with j(3) show ?thesis by (simp add: evens_def)
qed

lemma phaseCorrection_pass:
  assumes "j \<in> set (evens 16 222)"
  shows "rd (applyPhaseCorrection mag offset) (offset + j)
           = rd (fold (phaseStep offset) (evens 16 j) mag) (offset + j)"
    and "rd (applyPhaseCorrection mag offset) (offset + j + 2)
           = rd (phaseStep offset j (fold (phaseStep offset) (evens 16 j) mag)) (offset + j + 2)"
    and "rd (fold (phaseStep offset) (evens 16 j) mag) (offset + j + 1) = rd mag (offset + j + 1)"
    and "rd (fold (phaseStep offset) (evens 16 j) mag) (offset + j + 2) = rd mag (offset + j + 2)"
proof -
  from assms have j: "even j" by (simp add: set_evens)
  have a: "\<forall>i\<in>set (evens 16 j). i < j \<and> even i" by (auto simp: set_evens)
  have b: "\<forall>i\<in>set (filter (\<lambda>i. even (i - 16)) [j + 1..221]). j < i" by auto
  have e: "applyPhaseCorrection mag offset
             = fold (phaseStep offset) (evens 16 j @ j # filter (\<lambda>i. even (i - 16)) [j + 1..221]) mag"
    using evens_split[OF assms] by (simp add: applyPhaseCorrection_def LONG_MSG_BITS_def)
  note p = phaseSteps_at[OF a b j, where mag = mag and offset = offset]
  show "rd (applyPhaseCorrection mag offset) (offset + j)
           = rd (fold (phaseStep offset) (evens 16 j) mag) (offset + j)"
    unfolding e by (rule p(1))
  show "rd (applyPhaseCorrection mag offset) (offset + j + 2)
           = rd (phaseStep offset j (fold (phaseStep offset) (evens 16 j) mag)) (offset + j + 2)"
    unfolding e by (rule p(2))
  show "rd (fold (phaseStep offset) (evens 16 j) mag) (offset + j + 1) = rd mag (offset + j + 1)"
    by (rule p(3))
  show "rd (fold (phaseStep offset) (evens 16 j) mag) (offset + j + 2) = rd mag (offset + j + 2)"
    by (rule p(4))
qed

lemma top_magnitude: "magnitude 128 128 = Some 65167"
  using sqrt_top by (simp add: magnitude_def num_def)

lemma top_sample:
  "computeMagnitudeVector buildLUT [255, 255] [0] 2 False = Inr [65167]"
proof -
  have v: "lookup buildLUT (absolute (nsub (rd [255, 255 :: 8 word] 0) (num 127)))
              (absolute (nsub (rd [255, 255 :: 8 word] 1) (num 127))) = Some 65167"
    using unsigned_value[of 0 "[255, 255]"] by (simp add: top_magnitude)
  have t: "(toUint (Some 65167) :: 16 word) = 65167" by (simp add: toUint_def)
  have p: "map (\<lambda>b. 2 * int b) [0..<1] = [0]" by simp
  show ?thesis
    unfolding unsigned_run by (simp add: p v wr_def t)
qed

text \<open>
  Claim C10. \<open>applyPhaseCorrection(mag, offset)\<close> stores into a \<open>Uint16Array\<close>. For every
  pass \<open>j\<close> of its loop (16, 18, \<dots>, 220) that takes the branch scaling up, the sample
  \<open>mag[offset + j + 2]\<close>, \<open>m\<close> before the call, is \<open>\<lfloor>5 m / 4\<rfloor>\<close> reduced modulo \<open>2 ^ 16\<close> after
  the call: for \<open>m \<le> 52428\<close> this is \<open>\<lfloor>5 m / 4\<rfloor>\<close> itself, for \<open>m \<ge> 52429\<close> it has wrapped
  around and is smaller than \<open>m\<close>. The branch is taken when \<open>mag[offset + j]\<close>, as the pass
  finds it, exceeds \<open>mag[offset + j + 1]\<close>; the former is then what the call leaves there, as
  the later passes write later samples, and the latter is never written. Such values are
  attainable: the table entry for \<open>i = q = 128\<close> is 65167, and it is the magnitude
  \<open>computeMagnitudeVector\<close> stores for the pair of bytes 255 and 255.
\<close>

theorem phase_scale_up_wraps:
  assumes "j \<in> set (evens 16 ((LONG_MSG_BITS - 1) * 2))"
    and "gt (rd (applyPhaseCorrection mag offset) (offset + j)) (rd mag (offset + j + 1))"
    and "rd mag (offset + j + 2) = Some (real m)"
  shows "rd (applyPhaseCorrection mag offset) (offset + j + 2) = Some (real (5 * m div 4 mod 65536)) \<and>
         (m \<le> 52428 \<longrightarrow> 5 * m div 4 mod 65536 = 5 * m div 4) \<and>
         (52429 \<le> m \<longrightarrow> 5 * m div 4 mod 65536 = 5 * m div 4 - 65536 \<and> 5 * m div 4 - 65536 < m) \<and>
         rd buildLUT (128 * 129 + 128) = Some 65167 \<and>
         computeMagnitudeVector buildLUT [255, 255] [0] 2 False = Inr [65167]"
proof -
  from assms(1) have j: "j \<in> set (evens 16 222)" by (simp add: LONG_MSG_BITS_def)
  let ?P = "fold (phaseStep offset) (evens 16 j) mag"
  note p = phaseCorrection_pass[OF j, where mag = mag and offset = offset]
  have g: "gt (rd ?P (offset + j)) (rd ?P (offset + j + 1))"
    using assms(2) by (simp only: p(1) p(3))
  have v: "rd ?P (offset + j + 2) = Some (real m)"
    using assms(3) by (simp only: p(4))
  have st: "rd (applyPhaseCorrection mag offset) (offset + j + 2) = Some (real (5 * m div 4 mod 65536))"
    unfolding p(2) by (rule phaseStep_one[OF g v])
  have m: "m < 65536" using rd_Some_less[OF assms(3)] by simp
  have "rd buildLUT (128 * 129 + 128) = magnitude 128 128"
    by (rule rd_buildLUT) simp_all
  then have top: "rd buildLUT (128 * 129 + 128) = Some 65167"
    by (simp only: top_magnitude)
  have small: "m \<le> 52428 \<longrightarrow> 5 * m div 4 mod 65536 = 5 * m div 4"
  proof
    assume "m \<le> 52428"
    then have "5 * m div 4 < 65536" by arith
    then show "5 * m div 4 mod 65536 = 5 * m div 4" by simp
  qed
  have big: "52429 \<le> m \<longrightarrow> 5 * m div 4 mod 65536 = 5 * m div 4 - 65536 \<and> 5 * m div 4 - 65536 < m"
  proof
    assume "52429 \<le> m"
    with m have "65536 \<le> 5 * m div 4" "5 * m div 4 < 2 * 65536" by arith+
    then have "5 * m div 4 mod 65536 = 5 * m div 4 - 65536"
      by (simp add: mod_if)
    moreover have "5 * m div 4 - 65536 < m" using m \<open>52429 \<le> m\<close> by arith
    ultimately show "5 * m div 4 mod 65536 = 5 * m div 4 - 65536 \<and> 5 * m div 4 - 65536 < m" by simp
  qed
  from st small big top top_sample show ?thesis by blast
qed

text \<open>
  The theorem on the sample frame with pulses of height 65167, at offset 0 and the first
  pass: the call leaves 15922 in the sample 18.
\<close>

theorem phase_scale_up_wraps_witness:
  "16 \<in> set (evens 16 ((LONG_MSG_BITS - 1) * 2)) \<and>
   gt (rd (applyPhaseCorrection (pulseFrame 65167) 0) (0 + 16)) (rd (pulseFrame 65167) (0 + 16 + 1)) \<and>
   rd (pulseFrame 65167) (0 + 16 + 2) = Some (real 65167) \<and>
   rd (applyPhaseCorrection (pulseFrame 65167) 0) (0 + 16 + 2) = Some 15922"
proof -
  have a: "16 \<in> set (evens 16 ((LONG_MSG_BITS - 1) * 2))"
    by (simp add: set_evens LONG_MSG_BITS_def)
  have "rd (applyPhaseCorrection (pulseFrame 65167) 0) (0 + 16) = rd (pulseFrame 65167) (0 + 16)"
    by (rule rd_applyPhaseCorrection_other) simp
  then have b: "gt (rd (applyPhaseCorrection (pulseFrame 65167) 0) (0 + 16)) (rd (pulseFrame 65167) (0 + 16 + 1))"
    by (simp add: rd_pulseFrame gt_def)
  have c: "rd (pulseFrame 65167) (0 + 16 + 2) = Some (real 65167)"
    by (simp add: rd_pulseFrame)
  from phase_scale_up_wraps[OF a b c] a b c show ?thesis by simp
qed

end
